theory Spec2Isabelle
  imports Complex_Main
begin

section \<open>Data model\<close>

text \<open>
  The solver's scalar type \<open>Real\<close> is an arbitrary-precision float (GMP's \<open>mpf_class\<close>).
  It is modelled by the field of real numbers: rounding is not modelled, so every
  statement below is about the exact arithmetic the code approximates. The C++ \<open>int\<close>
  values that are sizes, counters and indices are modelled by \<open>nat\<close> (the loops only
  ever count upwards from zero); the entries of \<open>dimensions\<close> and \<open>degrees\<close>, which the
  code compares against such counters, are kept as \<open>int\<close> so that a negative entry
  gives an empty loop as in the code. 32-bit overflow is not modelled.
\<close>

type_synonym Real = real
type_synonym Vector = "Real list"

text \<open>
  Failures of the code: a failed \<open>assert\<close>, a read outside a vector (undefined
  behaviour in C++), a division by zero and the square root of a negative number (for
  both, GMP raises an arithmetic exception that ends the process).
\<close>

datatype error = AssertionFailed | OutOfRange | DivisionByZero | SqrtOfNegative

text \<open>A loop whose body can fail: the first failure ends it.\<close>

primrec foldl_err :: "('b \<Rightarrow> 'a \<Rightarrow> error + 'b) \<Rightarrow> 'b \<Rightarrow> 'a list \<Rightarrow> error + 'b" where
  "foldl_err f st [] = Inr st"
| "foldl_err f st (x # xs) = (case f st x of Inl e \<Rightarrow> Inl e | Inr st' \<Rightarrow> foldl_err f st' xs)"

text \<open>\<open>class Matrix\<close> (main.cpp:65-157): a dense matrix stored column by column.\<close>

record Matrix =
  rows :: nat
  cols :: nat
  elements :: Vector

definition Matrix_new :: "nat \<Rightarrow> nat \<Rightarrow> Matrix" where
  "Matrix_new r c = \<lparr>rows = r, cols = c, elements = replicate (r * c) 0\<rparr>"

definition Matrix_get :: "Matrix \<Rightarrow> nat \<Rightarrow> nat \<Rightarrow> Real" where
  "Matrix_get A r c = elements A ! (r + c * rows A)"

definition Matrix_set :: "Matrix \<Rightarrow> nat \<Rightarrow> nat \<Rightarrow> Real \<Rightarrow> Matrix" where
  "Matrix_set A r c a = A\<lparr>elements := (elements A)[r + c * rows A := a]\<rparr>"

definition Matrix_addElt :: "Matrix \<Rightarrow> nat \<Rightarrow> nat \<Rightarrow> Real \<Rightarrow> Matrix" where
  "Matrix_addElt A r c a =
     A\<lparr>elements := (elements A)[r + c * rows A := elements A ! (r + c * rows A) + a]\<rparr>"

text \<open>
  The shape every \<open>Matrix\<close> built by the constructor has, and that no member function
  changes: the buffer holds \<open>rows * cols\<close> entries.
\<close>

definition Matrix_wf :: "Matrix \<Rightarrow> bool" where
  "Matrix_wf A = (length (elements A) = rows A * cols A)"

text \<open>\<open>class BlockDiagonalMatrix\<close> (main.cpp:492-580).\<close>

record BlockDiagonalMatrix =
  dim_BDM :: nat
  diagonalPart :: Vector
  blocks_BDM :: "Matrix list"

text \<open>\<open>class IndexTuple\<close> (main.cpp:960-968, SDP.h:16-24): the fields \<open>p, r, s, k\<close>.\<close>

record IndexTuple =
  it_p :: nat
  it_r :: nat
  it_s :: nat
  it_k :: nat

section \<open>Largest absolute value\<close>

text \<open>
  \<open>maxAbsVectorElement\<close> (main.cpp:33-39) starts from \<open>abs(v[0])\<close>, read before the
  loop and whatever the length of \<open>v\<close>: on the empty vector the read is outside the
  buffer.
\<close>

definition maxAbsVectorElement :: "Vector \<Rightarrow> error + Real" where
  "maxAbsVectorElement v =
     (if 0 < length v
      then Inr (foldl (\<lambda>max e. if \<bar>e\<bar> > max then \<bar>e\<bar> else max) \<bar>v ! 0\<bar> v)
      else Inl OutOfRange)"

text \<open>\<open>Matrix::maxAbsElement\<close> (main.cpp:152-154).\<close>

definition Matrix_maxAbsElement :: "Matrix \<Rightarrow> error + Real" where
  "Matrix_maxAbsElement A = maxAbsVectorElement (elements A)"

text \<open>\<open>BlockDiagonalMatrix::maxAbsElement\<close> (main.cpp:568-576).\<close>

definition BlockDiagonalMatrix_maxAbsElement :: "BlockDiagonalMatrix \<Rightarrow> error + Real" where
  "BlockDiagonalMatrix_maxAbsElement A =
     (case maxAbsVectorElement (diagonalPart A) of
        Inl e \<Rightarrow> Inl e
      | Inr max0 \<Rightarrow>
          foldl_err (\<lambda>max b.
              case Matrix_maxAbsElement b of
                Inl e \<Rightarrow> Inl e
              | Inr tmp \<Rightarrow> Inr (if tmp > max then tmp else max))
            max0 (blocks_BDM A))"

text \<open>All the entries a block-diagonal matrix stores.\<close>

definition storedEntries :: "BlockDiagonalMatrix \<Rightarrow> Real set" where
  "storedEntries A = set (diagonalPart A) \<union> (\<Union>b \<in> set (blocks_BDM A). set (elements b))"

section \<open>Constraint index tuples\<close>

text \<open>
  The loop of the \<open>SDPSolver\<close> constructor (main.cpp:1031-1044), which is also the loop
  of \<open>SDP::initializeConstraintIndices\<close> (SDP.h:61-74). The state is the counter \<open>p\<close>
  and the vector of groups; the result is the state after the loop.
\<close>

definition constraintIndexTuples_loop :: "int list \<Rightarrow> int list \<Rightarrow> nat \<times> IndexTuple list list" where
  "constraintIndexTuples_loop dimensions degrees =
     foldl (\<lambda>(p, tuples) j.
         foldl (\<lambda>(p, tuples) s.
             foldl (\<lambda>(p, tuples) r.
                 foldl (\<lambda>(p, tuples) k.
                     (p + 1,
                      tuples[j := tuples ! j @ [\<lparr>it_p = p, it_r = r, it_s = s, it_k = k\<rparr>]]))
                   (p, tuples) [0..<nat (degrees ! j + 1)])
               (p, tuples) [0..<s + 1])
           (p, tuples @ [[]]) [0..<nat (dimensions ! j)])
       (0, []) [0..<length dimensions]"

text \<open>The member \<open>constraintIndexTuples\<close> the constructor of \<open>SDPSolver\<close> leaves.\<close>

definition constraintIndexTuples :: "int list \<Rightarrow> int list \<Rightarrow> IndexTuple list list" where
  "constraintIndexTuples dimensions degrees = snd (constraintIndexTuples_loop dimensions degrees)"

text \<open>
  \<open>SDP::initializeConstraintIndices\<close> (SDP.h:61-76): the same loop, followed by
  \<open>assert(p == (int)primalObjective.size())\<close>.
\<close>

definition initializeConstraintIndices ::
  "int list \<Rightarrow> int list \<Rightarrow> Vector \<Rightarrow> error + IndexTuple list list" where
  "initializeConstraintIndices dimensions degrees primalObjective =
     (case constraintIndexTuples_loop dimensions degrees of
        (p, constraintIndices) \<Rightarrow>
          if p = length primalObjective then Inr constraintIndices else Inl AssertionFailed)"

text \<open>
  The order of the enumeration inside a group: \<open>(s, r, k)\<close> lexicographically, and
  with the group index \<open>j\<close> in front across groups.
\<close>

definition lex_srk :: "IndexTuple \<Rightarrow> IndexTuple \<Rightarrow> bool" where
  "lex_srk t t' =
     (it_s t < it_s t' \<or> (it_s t = it_s t' \<and>
       (it_r t < it_r t' \<or> (it_r t = it_r t' \<and> it_k t < it_k t'))))"

definition lex_jsrk :: "nat \<times> IndexTuple \<Rightarrow> nat \<times> IndexTuple \<Rightarrow> bool" where
  "lex_jsrk a b = (fst a < fst b \<or> (fst a = fst b \<and> lex_srk (snd a) (snd b)))"

text \<open>
  Proof device: the triples \<open>(r, s, k)\<close> a group enumerates, in the order of the loops,
  and the tuples obtained from a list of triples by numbering them from \<open>p\<close>.
\<close>

definition groupTriples :: "int \<Rightarrow> int \<Rightarrow> (nat \<times> nat \<times> nat) list" where
  "groupTriples dimension degree =
     concat (map (\<lambda>s. concat (map (\<lambda>r. map (\<lambda>k. (r, s, k)) [0..<nat (degree + 1)]) [0..<s + 1]))
       [0..<nat dimension])"

definition numberFrom :: "nat \<Rightarrow> (nat \<times> nat \<times> nat) list \<Rightarrow> IndexTuple list" where
  "numberFrom p xs =
     map (\<lambda>(i, (r, s, k)). \<lparr>it_p = i, it_r = r, it_s = s, it_k = k\<rparr>) (enumerate p xs)"

definition triplesBefore :: "int list \<Rightarrow> int list \<Rightarrow> nat \<Rightarrow> (nat \<times> nat \<times> nat) list" where
  "triplesBefore dimensions degrees n =
     concat (map (\<lambda>j. groupTriples (dimensions ! j) (degrees ! j)) [0..<n])"

definition triple_less :: "nat \<times> nat \<times> nat \<Rightarrow> nat \<times> nat \<times> nat \<Rightarrow> bool" where
  "triple_less x y =
     (case x of (r, s, k) \<Rightarrow> case y of (r', s', k') \<Rightarrow>
        s < s' \<or> (s = s' \<and> (r < r' \<or> (r = r' \<and> k < k'))))"

text \<open>
  Proof device: a sequence of \<open>set\<close> calls, and a sequence of \<open>addElt\<close> calls, given as
  lists of positions \<open>(r, c)\<close> with values.
\<close>

definition Matrix_writes :: "Matrix \<Rightarrow> ((nat \<times> nat) \<times> Real) list \<Rightarrow> Matrix" where
  "Matrix_writes M ws = foldl (\<lambda>M w. Matrix_set M (fst (fst w)) (snd (fst w)) (snd w)) M ws"

definition Matrix_adds :: "Matrix \<Rightarrow> ((nat \<times> nat) \<times> Real) list \<Rightarrow> Matrix" where
  "Matrix_adds M ws = foldl (\<lambda>M w. Matrix_addElt M (fst (fst w)) (snd (fst w)) (snd w)) M ws"

text \<open>The positions inside a matrix.\<close>

definition inside :: "Matrix \<Rightarrow> nat \<times> nat \<Rightarrow> bool" where
  "inside M rc = (fst rc < rows M \<and> snd rc < cols M)"

section \<open>The semidefinite program\<close>

text \<open>
  \<open>class SDP\<close> (main.cpp:707-736). \<open>numConstraints\<close> and \<open>objDimension\<close> are counts;
  \<open>blocks[j]\<close> lists indices into \<open>bilinearBases\<close>.
\<close>

record SDP =
  bilinearBases :: "Matrix list"
  numConstraints :: nat
  objDimension :: nat
  polMatrixValues :: Matrix
  affineConstants :: Vector
  objective :: Vector
  dimensions :: "int list"
  degrees :: "int list"
  blocks :: "nat list list"

text \<open>\<open>SDP::psdMatrixBlockDims\<close> and \<open>SDP::bilinearPairingBlockDims\<close> (main.cpp:719-733).\<close>

definition psdMatrixBlockDims :: "SDP \<Rightarrow> nat list" where
  "psdMatrixBlockDims sdp =
     concat (map (\<lambda>j. map (\<lambda>b. rows (bilinearBases sdp ! b) * nat (dimensions sdp ! j))
                    (blocks sdp ! j))
       [0..<length (dimensions sdp)])"

definition bilinearPairingBlockDims :: "SDP \<Rightarrow> nat list" where
  "bilinearPairingBlockDims sdp =
     concat (map (\<lambda>j. map (\<lambda>b. cols (bilinearBases sdp ! b) * nat (dimensions sdp ! j))
                    (blocks sdp ! j))
       [0..<length (dimensions sdp)])"

section \<open>Cholesky factorisation\<close>

text \<open>
  Modelled from the spec: \<open>Rpotrf\<close>, the POTRF routine of the external MPACK library
  that \<open>choleskyDecomposition\<close> calls, is not part of the repository. Spec 4.1:
  \<open>POTRF(lower, A): A \<leftarrow> L with L L\<^sup>T = A on the lower triangle; fails if not PD\<close>.
  The model is the column-by-column Cholesky algorithm on a column-major
  \<open>n \<times> n\<close> array, reading the lower triangle only; as in LAPACK the failure is
  signalled through \<open>info\<close>: 0 on success, \<open>j + 1\<close> when the pivot of column \<open>j\<close> is
  not positive, in which case the routine stops there.
\<close>

definition Rpotrf_column :: "nat \<Rightarrow> Vector \<times> int \<Rightarrow> nat \<Rightarrow> Vector \<times> int" where
  "Rpotrf_column n st j =
     (case st of (A, info) \<Rightarrow>
        if info \<noteq> 0 then (A, info)
        else
          let ajj = A ! (j + j * n) - (\<Sum>k \<leftarrow> [0..<j]. A ! (j + k * n) * A ! (j + k * n))
          in if ajj \<le> 0 then (A[j + j * n := ajj], int j + 1)
             else
               (foldl (\<lambda>A i.
                    A[i + j * n :=
                        (A ! (i + j * n) - (\<Sum>k \<leftarrow> [0..<j]. A ! (i + k * n) * A ! (j + k * n)))
                          / sqrt ajj])
                  (A[j + j * n := sqrt ajj]) [j + 1..<n],
                0))"

definition Rpotrf :: "nat \<Rightarrow> Vector \<Rightarrow> Vector \<times> int" where
  "Rpotrf n A = foldl (Rpotrf_column n) (A, 0) [0..<n]"

text \<open>
  \<open>Rcopy(n, x, 1, y, 1)\<close> of the same library copies the first \<open>n\<close> entries of \<open>x\<close>
  over those of \<open>y\<close>.
\<close>

definition Rcopy :: "nat \<Rightarrow> Vector \<Rightarrow> Vector \<Rightarrow> Vector" where
  "Rcopy n x y = take n x @ drop n y"

text \<open>
  \<open>choleskyDecomposition\<close> (main.cpp:302-320). The function returns \<open>void\<close>: the
  variable \<open>info\<close> that \<open>Rpotrf\<close> sets is local and is not read after the call.
\<close>

definition choleskyDecomposition :: "Matrix \<Rightarrow> Matrix \<Rightarrow> error + Matrix" where
  "choleskyDecomposition a result =
     (let dim = rows a
      in if cols a = dim \<and> rows result = dim \<and> cols result = dim
         then
           (case Rpotrf dim (Rcopy (dim * dim) (elements a) (elements result)) of
              (resultArray, info) \<Rightarrow>
                Inr (result\<lparr>elements :=
                       foldl (\<lambda>e j. foldl (\<lambda>e i. e[i + j * dim := 0]) e [0..<j])
                         resultArray [0..<dim]\<rparr>))
         else Inl AssertionFailed)"

section \<open>Vector and matrix arithmetic\<close>

text \<open>\<open>dotProduct\<close> (main.cpp:206-211).\<close>

definition dotProduct :: "Vector \<Rightarrow> Vector \<Rightarrow> Real" where
  "dotProduct u v = foldl (\<lambda>result i. result + u ! i * v ! i) 0 [0..<length u]"

text \<open>\<open>Matrix::symmetrize\<close> (main.cpp:106-116), without its \<open>assert(rows == cols)\<close>.\<close>

definition Matrix_symmetrize_loop :: "Matrix \<Rightarrow> Matrix" where
  "Matrix_symmetrize_loop M =
     foldl (\<lambda>M r.
         foldl (\<lambda>M c.
             let tmp = (Matrix_get M r c + Matrix_get M c r) / 2
             in Matrix_set (Matrix_set M r c tmp) c r tmp)
           M [0..<r])
       M [0..<rows M]"

definition Matrix_symmetrize :: "Matrix \<Rightarrow> error + Matrix" where
  "Matrix_symmetrize M =
     (if rows M = cols M then Inr (Matrix_symmetrize_loop M) else Inl AssertionFailed)"

text \<open>
  \<open>frobeniusProductSymmetric\<close> on matrices (main.cpp:247-262): the strict upper triangle,
  doubled, then the diagonal; the three asserts come first.
\<close>

definition frobeniusProductSymmetric_Matrix :: "Matrix \<Rightarrow> Matrix \<Rightarrow> error + Real" where
  "frobeniusProductSymmetric_Matrix A B =
     (if rows A = rows B \<and> cols A = cols B \<and> rows A = cols A
      then Inr (foldl (\<lambda>result r. result + Matrix_get A r r * Matrix_get B r r)
                 (foldl (\<lambda>result c.
                      foldl (\<lambda>result r. result + Matrix_get A r c * Matrix_get B r c)
                        result [0..<c])
                    0 [0..<cols A] * 2)
                 [0..<rows A])
      else Inl AssertionFailed)"

text \<open>\<open>frobeniusProductOfSums\<close> on matrices (main.cpp:267-280); it asserts nothing.\<close>

definition frobeniusProductOfSums_Matrix :: "Matrix \<Rightarrow> Matrix \<Rightarrow> Matrix \<Rightarrow> Matrix \<Rightarrow> Real" where
  "frobeniusProductOfSums_Matrix X dX Y dY =
     foldl (\<lambda>result r.
         result + (Matrix_get X r r + Matrix_get dX r r) * (Matrix_get Y r r + Matrix_get dY r r))
       (foldl (\<lambda>result c.
            foldl (\<lambda>result r.
                result + (Matrix_get X r c + Matrix_get dX r c) * (Matrix_get Y r c + Matrix_get dY r c))
              result [0..<c])
          0 [0..<cols X] * 2)
       [0..<rows X]"

section \<open>Block-diagonal matrix arithmetic\<close>

text \<open>The constructor (main.cpp:498-506): zero entries, \<open>dim\<close> the total dimension.\<close>

definition BlockDiagonalMatrix_new :: "nat \<Rightarrow> nat list \<Rightarrow> BlockDiagonalMatrix" where
  "BlockDiagonalMatrix_new diagonalSize blockSizes =
     \<lparr>dim_BDM = foldl (\<lambda>dim n. dim + n) diagonalSize blockSizes,
      diagonalPart = replicate diagonalSize 0,
      blocks_BDM = map (\<lambda>n. Matrix_new n n) blockSizes\<rparr>"

text \<open>\<open>BlockDiagonalMatrix::symmetrize\<close> (main.cpp:563-566).\<close>

definition BlockDiagonalMatrix_symmetrize :: "BlockDiagonalMatrix \<Rightarrow> error + BlockDiagonalMatrix" where
  "BlockDiagonalMatrix_symmetrize M =
     foldl_err (\<lambda>M b.
         case Matrix_symmetrize (blocks_BDM M ! b) of
           Inl e \<Rightarrow> Inl e
         | Inr B \<Rightarrow> Inr (M\<lparr>blocks_BDM := (blocks_BDM M)[b := B]\<rparr>))
       M [0..<length (blocks_BDM M)]"

text \<open>\<open>frobeniusProductSymmetric\<close> on block-diagonal matrices (main.cpp:601-609).\<close>

definition frobeniusProductSymmetric :: "BlockDiagonalMatrix \<Rightarrow> BlockDiagonalMatrix \<Rightarrow> error + Real" where
  "frobeniusProductSymmetric A B =
     foldl_err (\<lambda>result b.
         case frobeniusProductSymmetric_Matrix (blocks_BDM A ! b) (blocks_BDM B ! b) of
           Inl e \<Rightarrow> Inl e
         | Inr x \<Rightarrow> Inr (result + x))
       (dotProduct (diagonalPart A) (diagonalPart B)) [0..<length (blocks_BDM A)]"

text \<open>\<open>frobeniusProductOfSums\<close> on block-diagonal matrices (main.cpp:614-626).\<close>

definition frobeniusProductOfSums ::
  "BlockDiagonalMatrix \<Rightarrow> BlockDiagonalMatrix \<Rightarrow> BlockDiagonalMatrix \<Rightarrow> BlockDiagonalMatrix \<Rightarrow> Real" where
  "frobeniusProductOfSums X dX Y dY =
     foldl (\<lambda>result b.
         result + frobeniusProductOfSums_Matrix (blocks_BDM X ! b) (blocks_BDM dX ! b)
                    (blocks_BDM Y ! b) (blocks_BDM dY ! b))
       (foldl (\<lambda>result i.
            result + (diagonalPart X ! i + diagonalPart dX ! i) * (diagonalPart Y ! i + diagonalPart dY ! i))
          0 [0..<length (diagonalPart X)])
       [0..<length (blocks_BDM X)]"

text \<open>
  The shape of the block-diagonal matrices of the solver: every block is square with a
  buffer of \<open>rows * cols\<close> entries (as the constructor builds them), and two matrices
  of identical shape agree on the length of the diagonal prefix and on the sizes of
  the blocks.
\<close>

definition BlockDiagonalMatrix_wf :: "BlockDiagonalMatrix \<Rightarrow> bool" where
  "BlockDiagonalMatrix_wf A = list_all (\<lambda>b. Matrix_wf b \<and> rows b = cols b) (blocks_BDM A)"

definition sameShape :: "BlockDiagonalMatrix \<Rightarrow> BlockDiagonalMatrix \<Rightarrow> bool" where
  "sameShape A B =
     (length (diagonalPart A) = length (diagonalPart B) \<and>
      map rows (blocks_BDM A) = map rows (blocks_BDM B) \<and>
      map cols (blocks_BDM A) = map cols (blocks_BDM B))"

section \<open>The symmetric Frobenius product of the specification\<close>

text \<open>
  The sum of two matrices and of two block-diagonal matrices, entry by entry: the
  \<open>X + dX\<close> of the specification.
\<close>

definition spec_sum_Matrix :: "Matrix \<Rightarrow> Matrix \<Rightarrow> Matrix" where
  "spec_sum_Matrix A B =
     A\<lparr>elements := map (\<lambda>i. elements A ! i + elements B ! i) [0..<length (elements A)]\<rparr>"

definition spec_sum :: "BlockDiagonalMatrix \<Rightarrow> BlockDiagonalMatrix \<Rightarrow> BlockDiagonalMatrix" where
  "spec_sum A B =
     A\<lparr>diagonalPart := map (\<lambda>i. diagonalPart A ! i + diagonalPart B ! i)
                         [0..<length (diagonalPart A)],
       blocks_BDM := map (\<lambda>b. spec_sum_Matrix (blocks_BDM A ! b) (blocks_BDM B ! b))
                       [0..<length (blocks_BDM A)]\<rparr>"

text \<open>
  The product \<open><A,B>_sym\<close> as the specification defines it (section 4.2): on a block, the sum
  of the products of the off-diagonal entries, taken above the diagonal and doubled, plus
  the products of the diagonal entries; on a block-diagonal matrix, the products along the
  diagonal part plus the products of the blocks.
\<close>

definition spec_frobenius_sym_Matrix :: "Matrix \<Rightarrow> Matrix \<Rightarrow> Real" where
  "spec_frobenius_sym_Matrix A B =
     2 * (\<Sum>c<cols A. \<Sum>r<c. Matrix_get A r c * Matrix_get B r c)
       + (\<Sum>r<rows A. Matrix_get A r r * Matrix_get B r r)"

definition spec_frobenius_sym :: "BlockDiagonalMatrix \<Rightarrow> BlockDiagonalMatrix \<Rightarrow> Real" where
  "spec_frobenius_sym A B =
     (\<Sum>i<length (diagonalPart A). diagonalPart A ! i * diagonalPart B ! i)
       + (\<Sum>b<length (blocks_BDM A). spec_frobenius_sym_Matrix (blocks_BDM A ! b) (blocks_BDM B ! b))"

text \<open>
  The centering parameter of the corrector step as the specification gives it (section 4.6,
  step 9) from the ratio \<open>r\<close>, the two centering parameters and the feasibility flag.
\<close>

definition spec_centering :: "Real \<Rightarrow> Real \<Rightarrow> Real \<Rightarrow> bool \<Rightarrow> Real" where
  "spec_centering r feasible_beta infeasible_beta feasible =
     (let beta = (if r < 1 then r\<^sup>2 else r)
      in if feasible then min (max feasible_beta beta) 1 else max infeasible_beta beta)"

section \<open>Centering parameter of the corrector step\<close>

text \<open>The two fields of \<open>SDP_Solver_Parameters\<close> that \<open>corrector_centering_parameter\<close> reads.\<close>

record SDP_Solver_Parameters =
  feasible_centering_parameter :: Real
  infeasible_centering_parameter :: Real

text \<open>
  Modelled from the spec: \<open>frobenius_product_of_sums\<close>, which
  \<open>corrector_centering_parameter\<close> calls, and the class \<open>Block_Diagonal_Matrix\<close> of its
  arguments are not among the sources. By the specification (section 4.6, step 9) the call
  yields \<open><X+dX, Y+dY>_sym\<close>; \<open>Block_Diagonal_Matrix\<close> is taken to be the
  \<open>BlockDiagonalMatrix\<close> of main.cpp, of which the caller reads the field \<open>dim\<close>.
\<close>

definition frobenius_product_of_sums ::
  "BlockDiagonalMatrix \<Rightarrow> BlockDiagonalMatrix \<Rightarrow> BlockDiagonalMatrix \<Rightarrow> BlockDiagonalMatrix \<Rightarrow> Real" where
  "frobenius_product_of_sums X dX Y dY = spec_frobenius_sym (spec_sum X dX) (spec_sum Y dY)"

text \<open>
  \<open>corrector_centering_parameter\<close> (corrector_centering_parameter.cxx:5-26, the overload
  on \<open>Real\<close>). The division is GMP's, which raises on a zero divisor.
\<close>

definition corrector_centering_parameter ::
  "SDP_Solver_Parameters \<Rightarrow> BlockDiagonalMatrix \<Rightarrow> BlockDiagonalMatrix \<Rightarrow> BlockDiagonalMatrix \<Rightarrow>
   BlockDiagonalMatrix \<Rightarrow> Real \<Rightarrow> bool \<Rightarrow> error + Real" where
  "corrector_centering_parameter parameters X dX Y dY mu is_primal_dual_feasible =
     (if mu * real (dim_BDM X) = 0 then Inl DivisionByZero
      else
        let r = frobenius_product_of_sums X dX Y dY / (mu * real (dim_BDM X));
            beta = (if r < 1 then r * r else r)
        in if is_primal_dual_feasible
           then Inr (min (max (feasible_centering_parameter parameters) beta) 1)
           else Inr (max (infeasible_centering_parameter parameters) beta))"

text \<open>\<open>class SolverParameters\<close> (main.cpp:970-981) and \<open>maxReal\<close> (main.cpp:1310-1312).\<close>

record SolverParameters =
  betaStar :: Real
  betaBar :: Real
  epsilonStar :: Real
  epsilonBar :: Real

definition maxReal :: "Real \<Rightarrow> Real \<Rightarrow> Real" where
  "maxReal a b = (if a > b then a else b)"

text \<open>
  \<open>betaAuxiliary\<close> (main.cpp:1323-1329): the square of the ratio, whatever its size. The
  divisor \<open>frobeniusProductSymmetric(X, Y)\<close> can fail on its asserts, and the division is
  GMP's.
\<close>

definition betaAuxiliary ::
  "BlockDiagonalMatrix \<Rightarrow> BlockDiagonalMatrix \<Rightarrow> BlockDiagonalMatrix \<Rightarrow> BlockDiagonalMatrix \<Rightarrow>
   error + Real" where
  "betaAuxiliary X dX Y dY =
     (case frobeniusProductSymmetric X Y of
        Inl e \<Rightarrow> Inl e
      | Inr d \<Rightarrow>
          if d = 0 then Inl DivisionByZero
          else let r = frobeniusProductOfSums X dX Y dY / d in Inr (r * r))"

text \<open>\<open>correctorCenteringParameter\<close> (main.cpp:1336-1347).\<close>

definition correctorCenteringParameter :: "SolverParameters \<Rightarrow> Real \<Rightarrow> Real \<Rightarrow> Real" where
  "correctorCenteringParameter params feasibilityError betaAux =
     (if betaAux > 1 then 1
      else if feasibilityError < epsilonBar params then maxReal (betaStar params) betaAux
      else maxReal (betaBar params) betaAux)"

text \<open>
  The corrector step of \<open>SDPSolver::computeSearchDirection\<close> (main.cpp:1432):
  \<open>betaCorrector = correctorCenteringParameter(parameters, feasErr, betaAuxiliary(X, dX, Y, dY))\<close>.
\<close>

definition betaCorrector ::
  "SolverParameters \<Rightarrow> Real \<Rightarrow> BlockDiagonalMatrix \<Rightarrow> BlockDiagonalMatrix \<Rightarrow> BlockDiagonalMatrix \<Rightarrow>
   BlockDiagonalMatrix \<Rightarrow> error + Real" where
  "betaCorrector parameters feasErr X dX Y dY =
     (case betaAuxiliary X dX Y dY of
        Inl e \<Rightarrow> Inl e
      | Inr betaAux \<Rightarrow> Inr (correctorCenteringParameter parameters feasErr betaAux))"

section \<open>Tensor congruence\<close>

text \<open>
  \<open>tensorMatrixCongruence\<close> (main.cpp:420-466). The integer division \<open>a.rows / b.rows\<close>
  comes first, then the four asserts, then the two loop nests; the function leaves
  both \<open>work\<close> and \<open>result\<close> modified.
\<close>

definition tensorMatrixCongruence ::
  "Matrix \<Rightarrow> Matrix \<Rightarrow> Matrix \<Rightarrow> Matrix \<Rightarrow> error + Matrix \<times> Matrix" where
  "tensorMatrixCongruence a b work result =
     (if rows b = 0 then Inl DivisionByZero
      else
        let m = rows a div rows b
        in if \<not> (rows result = cols b * m \<and> cols result = cols b * m \<and>
                  rows work = rows a \<and> cols work = cols result)
           then Inl AssertionFailed
           else
             let work' =
                   foldl (\<lambda>work c.
                       let bCol = c mod cols b;
                           aColOffset = (c div cols b) * rows b
                       in foldl (\<lambda>work r.
                              let tmp = foldl (\<lambda>tmp k.
                                            tmp + Matrix_get a r (aColOffset + k) * Matrix_get b k bCol)
                                          0 [0..<rows b]
                              in Matrix_set work r c tmp)
                            work [0..<rows work])
                     work [0..<cols work];
                 result' =
                   foldl (\<lambda>result c.
                       foldl (\<lambda>result r.
                           let bCol = r mod cols b;
                               workRowOffset = (r div cols b) * rows b;
                               tmp = foldl (\<lambda>tmp k.
                                         tmp + Matrix_get b k bCol * Matrix_get work' (workRowOffset + k) c)
                                       0 [0..<rows b];
                               result1 = Matrix_set result r c tmp
                           in if c \<noteq> r then Matrix_set result1 c r tmp else result1)
                         result [0..<c + 1])
                     result [0..<cols result]
             in Inr (work', result'))"

text \<open>
  The mathematical side, in the spec's words: matrices as entry functions, the
  Kronecker product \<open>A \<otimes> B\<close> for \<open>B\<close> of size \<open>p \<times> q\<close> (the block matrix of the
  \<open>A\<^sub>i\<^sub>j B\<close>), the identity, and the entry \<open>(R, C)\<close> of the congruence \<open>K\<^sup>T A K\<close> for \<open>A\<close>
  of size \<open>N \<times> N\<close>.
\<close>

type_synonym entries = "nat \<Rightarrow> nat \<Rightarrow> Real"

definition kronecker :: "entries \<Rightarrow> nat \<Rightarrow> nat \<Rightarrow> entries \<Rightarrow> entries" where
  "kronecker A p q B i j = A (i div p) (j div q) * B (i mod p) (j mod q)"

definition identity :: entries where
  "identity i j = (if i = j then 1 else 0)"

definition congruence :: "nat \<Rightarrow> entries \<Rightarrow> entries \<Rightarrow> entries" where
  "congruence N K A R C = (\<Sum>i<N. \<Sum>j<N. K i R * A i j * K j C)"

text \<open>A matrix is symmetric when it is square and equal to its transpose.\<close>

definition Matrix_symmetric :: "Matrix \<Rightarrow> bool" where
  "Matrix_symmetric A =
     (rows A = cols A \<and>
      list_all (\<lambda>r. list_all (\<lambda>c. Matrix_get A r c = Matrix_get A c r) [0..<cols A]) [0..<rows A])"

section \<open>Dual residues and the Schur complement\<close>

text \<open>
  In the three functions below \<open>ej = sdp.degrees[j] + 1\<close> multiplies the counters \<open>r\<close>
  and \<open>s\<close> of a tuple to give an index, so it is taken as a \<open>nat\<close>: a group with a
  negative degree has no tuples at all.

  \<open>computeDualResidues\<close> (main.cpp:1191-1220): first the body of its loops, for the
  tuple \<open>t\<close> of group \<open>j\<close>, every statement of which updates the entry
  \<open>dualResidues[p]\<close> in place; then the two loops.
\<close>

definition computeDualResidues_tuple ::
  "SDP \<Rightarrow> BlockDiagonalMatrix \<Rightarrow> BlockDiagonalMatrix \<Rightarrow> nat \<Rightarrow> Vector \<Rightarrow> IndexTuple \<Rightarrow> Vector" where
  "computeDualResidues_tuple sdp Y bilinearPairingsY j dualResidues t =
     (let ej = nat (degrees sdp ! j + 1);
          p = it_p t; ej_r = it_r t * ej; ej_s = it_s t * ej; k = it_k t;
          d0 = dualResidues[p := 0];
          d1 = foldl (\<lambda>d b.
                  let d' = d[p := d ! p
                             - Matrix_get (blocks_BDM bilinearPairingsY ! b) (ej_r + k) (ej_s + k)]
                  in d'[p := d' ! p
                          - Matrix_get (blocks_BDM bilinearPairingsY ! b) (ej_s + k) (ej_r + k)])
                d0 (blocks sdp ! j);
          d2 = d1[p := d1 ! p / 2];
          d3 = foldl (\<lambda>d n.
                  d[p := d ! p - diagonalPart Y ! n * Matrix_get (polMatrixValues sdp) p n])
                d2 [0..<cols (polMatrixValues sdp)]
      in d3[p := d3 ! p + affineConstants sdp ! p])"

definition computeDualResidues ::
  "SDP \<Rightarrow> BlockDiagonalMatrix \<Rightarrow> BlockDiagonalMatrix \<Rightarrow> IndexTuple list list \<Rightarrow> Vector \<Rightarrow> Vector" where
  "computeDualResidues sdp Y bilinearPairingsY tuples dualResidues =
     foldl (\<lambda>dualResidues j.
         foldl (computeDualResidues_tuple sdp Y bilinearPairingsY j) dualResidues (tuples ! j))
       dualResidues [0..<length (dimensions sdp)]"

text \<open>The value the spec gives for \<open>dual_residues[p]\<close>, for the tuple \<open>t\<close> of group \<open>j\<close>.\<close>

definition dualResidue_spec ::
  "SDP \<Rightarrow> BlockDiagonalMatrix \<Rightarrow> BlockDiagonalMatrix \<Rightarrow> nat \<Rightarrow> IndexTuple \<Rightarrow> Real" where
  "dualResidue_spec sdp Y T_Y j t =
     (let ej = nat (degrees sdp ! j + 1)
      in affineConstants sdp ! it_p t
         - (1 / 2) * (\<Sum>b \<leftarrow> blocks sdp ! j.
               Matrix_get (blocks_BDM T_Y ! b) (ej * it_r t + it_k t) (ej * it_s t + it_k t)
             + Matrix_get (blocks_BDM T_Y ! b) (ej * it_s t + it_k t) (ej * it_r t + it_k t))
         - (\<Sum>n<cols (polMatrixValues sdp).
               Matrix_get (polMatrixValues sdp) (it_p t) n * diagonalPart Y ! n))"

text \<open>
  \<open>diagonalCongruenceTranspose\<close> (main.cpp:1081-1099). The pointer \<open>d\<close> is given by the
  vector it points into and the offset of its target.
\<close>

definition diagonalCongruenceTranspose ::
  "Vector \<Rightarrow> nat \<Rightarrow> Matrix \<Rightarrow> nat \<Rightarrow> nat \<Rightarrow> Matrix \<Rightarrow> Matrix" where
  "diagonalCongruenceTranspose x d V blockRow blockCol result =
     foldl (\<lambda>result p.
         foldl (\<lambda>result q.
             let tmp = foldl (\<lambda>tmp n. tmp + x ! (d + n) * Matrix_get V p n * Matrix_get V q n)
                         0 [0..<cols V];
                 result1 = Matrix_set result (blockRow * rows V + p) (blockCol * rows V + q) tmp
             in if p \<noteq> q
                then Matrix_set result1 (blockRow * rows V + q) (blockCol * rows V + p) tmp
                else result1)
           result [0..<p + 1])
       result [0..<rows V]"

text \<open>
  \<open>addSchurBlocks\<close> (main.cpp:1151-1189): first the body of its loops, for the tuples
  \<open>t1\<close> and \<open>t2\<close> of group \<open>j\<close>; then the three loops, where the inner iterator \<open>t2\<close>
  runs from the start of the group while \<open>t2->p <= t1->p\<close>.
\<close>

definition addSchurBlocks_pair ::
  "SDP \<Rightarrow> BlockDiagonalMatrix \<Rightarrow> BlockDiagonalMatrix \<Rightarrow> nat \<Rightarrow> Matrix \<Rightarrow> IndexTuple \<Rightarrow> IndexTuple \<Rightarrow> Matrix" where
  "addSchurBlocks_pair sdp bilinearPairingsXInv bilinearPairingsY j schurComplement t1 t2 =
     (let ej = nat (degrees sdp ! j + 1);
          p1 = it_p t1; ej_r1 = it_r t1 * ej; ej_s1 = it_s t1 * ej; k1 = it_k t1;
          p2 = it_p t2; ej_r2 = it_r t2 * ej; ej_s2 = it_s t2 * ej; k2 = it_k t2;
          tmp = foldl (\<lambda>tmp b.
                  tmp +
                  (Matrix_get (blocks_BDM bilinearPairingsXInv ! b) (ej_s1 + k1) (ej_r2 + k2)
                     * Matrix_get (blocks_BDM bilinearPairingsY ! b) (ej_s2 + k2) (ej_r1 + k1)
                   + Matrix_get (blocks_BDM bilinearPairingsXInv ! b) (ej_r1 + k1) (ej_r2 + k2)
                     * Matrix_get (blocks_BDM bilinearPairingsY ! b) (ej_s2 + k2) (ej_s1 + k1)
                   + Matrix_get (blocks_BDM bilinearPairingsXInv ! b) (ej_s1 + k1) (ej_s2 + k2)
                     * Matrix_get (blocks_BDM bilinearPairingsY ! b) (ej_r2 + k2) (ej_r1 + k1)
                   + Matrix_get (blocks_BDM bilinearPairingsXInv ! b) (ej_r1 + k1) (ej_s2 + k2)
                     * Matrix_get (blocks_BDM bilinearPairingsY ! b) (ej_r2 + k2) (ej_s1 + k1))
                  / 4)
                0 (blocks sdp ! j);
          schurComplement1 = Matrix_addElt schurComplement p1 p2 tmp
      in if p2 \<noteq> p1 then Matrix_addElt schurComplement1 p2 p1 tmp else schurComplement1)"

definition addSchurBlocks ::
  "SDP \<Rightarrow> BlockDiagonalMatrix \<Rightarrow> BlockDiagonalMatrix \<Rightarrow> IndexTuple list list \<Rightarrow> Matrix \<Rightarrow> Matrix" where
  "addSchurBlocks sdp bilinearPairingsXInv bilinearPairingsY tuples schurComplement =
     foldl (\<lambda>schurComplement j.
         foldl (\<lambda>schurComplement t1.
             foldl (\<lambda>schurComplement t2.
                 addSchurBlocks_pair sdp bilinearPairingsXInv bilinearPairingsY j schurComplement t1 t2)
               schurComplement (takeWhile (\<lambda>t2. it_p t2 \<le> it_p t1) (tuples ! j)))
           schurComplement (tuples ! j))
       schurComplement [0..<length (dimensions sdp)]"

text \<open>
  The quantity the spec adds to \<open>S[p\<^sub>1, p\<^sub>2]\<close> for the tuples \<open>t\<^sub>1, t\<^sub>2\<close> of group \<open>j\<close>, with
  \<open>T_X = bilinearPairingsXInv\<close> and \<open>T_Y = bilinearPairingsY\<close>.
\<close>

definition schurQuantity ::
  "SDP \<Rightarrow> BlockDiagonalMatrix \<Rightarrow> BlockDiagonalMatrix \<Rightarrow> nat \<Rightarrow> IndexTuple \<Rightarrow> IndexTuple \<Rightarrow> Real" where
  "schurQuantity sdp T_X T_Y j t1 t2 =
     (let ej = nat (degrees sdp ! j + 1);
          r1 = it_r t1; s1 = it_s t1; k1 = it_k t1;
          r2 = it_r t2; s2 = it_s t2; k2 = it_k t2
      in (1 / 4) * (\<Sum>b \<leftarrow> blocks sdp ! j.
            Matrix_get (blocks_BDM T_X ! b) (ej * s1 + k1) (ej * r2 + k2)
              * Matrix_get (blocks_BDM T_Y ! b) (ej * s2 + k2) (ej * r1 + k1)
          + Matrix_get (blocks_BDM T_X ! b) (ej * r1 + k1) (ej * r2 + k2)
              * Matrix_get (blocks_BDM T_Y ! b) (ej * s2 + k2) (ej * s1 + k1)
          + Matrix_get (blocks_BDM T_X ! b) (ej * s1 + k1) (ej * s2 + k2)
              * Matrix_get (blocks_BDM T_Y ! b) (ej * r2 + k2) (ej * r1 + k1)
          + Matrix_get (blocks_BDM T_X ! b) (ej * r1 + k1) (ej * s2 + k2)
              * Matrix_get (blocks_BDM T_Y ! b) (ej * r2 + k2) (ej * s1 + k1)))"

text \<open>
  The assembly of the Schur complement in \<open>SDPSolver::computeSchurComplementCholesky\<close>
  (main.cpp:1383-1384): the free-variable part written by
  \<open>diagonalCongruenceTranspose\<close>, then the blocks added by \<open>addSchurBlocks\<close>.
\<close>

definition assembleSchurComplement ::
  "SDP \<Rightarrow> Vector \<Rightarrow> BlockDiagonalMatrix \<Rightarrow> BlockDiagonalMatrix \<Rightarrow> IndexTuple list list \<Rightarrow> Matrix \<Rightarrow> Matrix" where
  "assembleSchurComplement sdp XInvYDiag bilinearPairingsXInv bilinearPairingsY tuples schurComplement =
     addSchurBlocks sdp bilinearPairingsXInv bilinearPairingsY tuples
       (diagonalCongruenceTranspose XInvYDiag 0 (polMatrixValues sdp) 0 0 schurComplement)"

text \<open>
  Proof device: the list of \<open>addElt\<close> calls of one pass of the loop body, and the sum of
  the values a list of such calls adds at one position.
\<close>

definition pairAdds :: "nat \<Rightarrow> nat \<Rightarrow> Real \<Rightarrow> ((nat \<times> nat) \<times> Real) list" where
  "pairAdds p1 p2 q = ((p1, p2), q) # (if p2 \<noteq> p1 then [((p2, p1), q)] else [])"

definition addedAt :: "nat \<times> nat \<Rightarrow> ((nat \<times> nat) \<times> Real) list \<Rightarrow> Real" where
  "addedAt rc ws = sum_list (map snd (filter (\<lambda>w. fst w = rc) ws))"

section \<open>Weighted sums of the constraint matrices\<close>

text \<open>
  \<open>constraintMatrixWeightedSum\<close> (main.cpp:1222-1245), in the order of the source. First the
  loop over the diagonal part: every entry is reset to zero and then summed.
\<close>

definition constraintMatrixWeightedSum_diagonal ::
  "SDP \<Rightarrow> Vector \<Rightarrow> BlockDiagonalMatrix \<Rightarrow> BlockDiagonalMatrix" where
  "constraintMatrixWeightedSum_diagonal sdp x result =
     foldl (\<lambda>result n.
         foldl (\<lambda>result p.
             result\<lparr>diagonalPart := (diagonalPart result)
                 [n := diagonalPart result ! n + x ! p * Matrix_get (polMatrixValues sdp) p n]\<rparr>)
           (result\<lparr>diagonalPart := (diagonalPart result)[n := 0]\<rparr>) [0..<length x])
       result [0..<length (diagonalPart result)]"

text \<open>
  Then the loops over the groups \<open>j\<close>, the block columns \<open>s\<close>, the block rows \<open>r \<le> s\<close> and the
  blocks \<open>b\<close> of the group. The state is the counter \<open>p\<close> (an \<open>int\<close>) and \<open>result\<close>, whose
  blocks are written by \<open>diagonalCongruenceTranspose\<close> and not reset.
\<close>

definition constraintMatrixWeightedSum_blocks ::
  "SDP \<Rightarrow> Vector \<Rightarrow> BlockDiagonalMatrix \<Rightarrow> int \<times> BlockDiagonalMatrix" where
  "constraintMatrixWeightedSum_blocks sdp x result =
     foldl (\<lambda>st j.
         foldl (\<lambda>st s.
             foldl (\<lambda>st r.
                 (fst st + (degrees sdp ! j) + 1,
                  foldl (\<lambda>result b.
                      result\<lparr>blocks_BDM := (blocks_BDM result)
                          [b := diagonalCongruenceTranspose x (nat (fst st)) (bilinearBases sdp ! b) r s
                                  (blocks_BDM result ! b)]\<rparr>)
                    (snd st) (blocks sdp ! j)))
               st [0..<s + 1])
           st [0..<nat (dimensions sdp ! j)])
       (0, result) [0..<length (dimensions sdp)]"

text \<open>The whole function: the two loops, \<open>assert(p == (int)x.size())\<close>, \<open>result.symmetrize()\<close>.\<close>

definition constraintMatrixWeightedSum ::
  "SDP \<Rightarrow> Vector \<Rightarrow> BlockDiagonalMatrix \<Rightarrow> error + BlockDiagonalMatrix" where
  "constraintMatrixWeightedSum sdp x result =
     (let st = constraintMatrixWeightedSum_blocks sdp x
                 (constraintMatrixWeightedSum_diagonal sdp x result)
      in if fst st = int (length x) then BlockDiagonalMatrix_symmetrize (snd st)
         else Inl AssertionFailed)"

text \<open>\<open>Matrix::operator*=\<close> and \<open>BlockDiagonalMatrix::operator*=\<close> (main.cpp:147-150, 547-553).\<close>

definition Matrix_scale :: "Matrix \<Rightarrow> Real \<Rightarrow> Matrix" where
  "Matrix_scale M c = M\<lparr>elements := map (\<lambda>a. a * c) (elements M)\<rparr>"

definition BlockDiagonalMatrix_scale :: "BlockDiagonalMatrix \<Rightarrow> Real \<Rightarrow> BlockDiagonalMatrix" where
  "BlockDiagonalMatrix_scale M c =
     M\<lparr>diagonalPart := map (\<lambda>a. a * c) (diagonalPart M),
       blocks_BDM := map (\<lambda>B. Matrix_scale B c) (blocks_BDM M)\<rparr>"

text \<open>
  The constraint matrix \<open>F_p\<close> as \<open>printSDPData\<close> builds it for the tuple \<open>t\<close> of group \<open>j\<close>
  (main.cpp:1616, 1627-1645): the buffer \<open>F\<close> is cleared, its diagonal part is row \<open>t->p\<close>
  of \<open>polMatrixValues\<close>, and every block of the group receives the products of the entries of
  column \<open>t->k\<close> of its basis at block position \<open>(t->r, t->s)\<close> and is symmetrized.
\<close>

definition constraintMatrix :: "SDP \<Rightarrow> nat \<Rightarrow> IndexTuple \<Rightarrow> error + BlockDiagonalMatrix" where
  "constraintMatrix sdp j t =
     (let F0 = BlockDiagonalMatrix_scale
                 (BlockDiagonalMatrix_new (objDimension sdp) (psdMatrixBlockDims sdp)) 0;
          F1 = foldl (\<lambda>F n. F\<lparr>diagonalPart := (diagonalPart F)
                           [n := Matrix_get (polMatrixValues sdp) (it_p t) n]\<rparr>)
                 F0 [0..<cols (polMatrixValues sdp)]
      in foldl_err (\<lambda>F b.
             let delta = rows (bilinearBases sdp ! b);
                 q = (\<lambda>e. elements (bilinearBases sdp ! b) ! (it_k t * delta + e));
                 B = foldl (\<lambda>B e.
                         foldl (\<lambda>B f. Matrix_set B (it_r t * delta + e) (it_s t * delta + f) (q e * q f))
                           B [0..<delta])
                       (blocks_BDM F ! b) [0..<delta]
             in case Matrix_symmetrize B of
                  Inl e \<Rightarrow> Inl e
                | Inr B' \<Rightarrow> Inr (F\<lparr>blocks_BDM := (blocks_BDM F)[b := B']\<rparr>))
           F1 (blocks sdp ! j))"

section \<open>Assembly of the SDP from polynomial matrices\<close>

text \<open>C++ division of \<open>int\<close> truncates towards zero (so \<open>(0 - 1) / 2\<close> is 0).\<close>

definition cdiv :: "int \<Rightarrow> int \<Rightarrow> int" where
  "cdiv a b = sgn a * sgn b * (\<bar>a\<bar> div \<bar>b\<bar>)"

text \<open>A read \<open>v[i]\<close> that the model checks.\<close>

definition nth_checked :: "'a list \<Rightarrow> nat \<Rightarrow> error + 'a" where
  "nth_checked v i = (if i < length v then Inr (v ! i) else Inl OutOfRange)"

text \<open>
  \<open>class Polynomial\<close> (main.cpp:751-773): \<open>degree()\<close> and evaluation by Horner's rule,
  which starts from \<open>coeffs[degree()]\<close>.
\<close>

record Polynomial =
  coeffs :: Vector

definition Polynomial_degree :: "Polynomial \<Rightarrow> int" where
  "Polynomial_degree p = int (length (coeffs p)) - 1"

definition Polynomial_eval :: "Polynomial \<Rightarrow> Real \<Rightarrow> error + Real" where
  "Polynomial_eval p x =
     (if coeffs p = [] then Inl OutOfRange
      else Inr (foldl (\<lambda>y i. y * x + coeffs p ! i)
                  (coeffs p ! (length (coeffs p) - 1))
                  (rev [0..<length (coeffs p) - 1])))"

text \<open>\<open>class PolynomialVectorMatrix\<close> (main.cpp:786-804).\<close>

record PolynomialVectorMatrix =
  pvm_rows :: int
  pvm_cols :: int
  pvm_elements :: "Polynomial list list"

definition PolynomialVectorMatrix_get ::
  "PolynomialVectorMatrix \<Rightarrow> nat \<Rightarrow> nat \<Rightarrow> error + Polynomial list" where
  "PolynomialVectorMatrix_get m r c =
     (if 0 \<le> int r + int c * pvm_rows m
      then nth_checked (pvm_elements m) (nat (int r + int c * pvm_rows m))
      else Inl OutOfRange)"

definition PolynomialVectorMatrix_degree :: "PolynomialVectorMatrix \<Rightarrow> int" where
  "PolynomialVectorMatrix_degree m =
     foldl (\<lambda>d e. foldl (\<lambda>d p. max (Polynomial_degree p) d) d e) 0 (pvm_elements m)"

text \<open>
  \<open>monomialAlgebraBasis\<close> (main.cpp:813-828). With \<open>halfShift\<close> the first power is
  \<open>sqrt(x)\<close>, which fails on a negative sample point.
\<close>

definition monomialAlgebraBasis :: "nat \<Rightarrow> nat \<Rightarrow> Vector \<Rightarrow> bool \<Rightarrow> error + Matrix" where
  "monomialAlgebraBasis d1 d xs halfShift =
     foldl_err (\<lambda>basisMatrix k.
         case nth_checked xs k of
           Inl e \<Rightarrow> Inl e
         | Inr x \<Rightarrow>
             if halfShift \<and> x < 0 then Inl SqrtOfNegative
             else
               Inr (fst (foldl (\<lambda>(basisMatrix, xToTheN) n.
                            (Matrix_set basisMatrix n k xToTheN, xToTheN * x))
                       (basisMatrix, if halfShift then sqrt x else 1) [0..<d1 + 1])))
       (Matrix_new (d1 + 1) (d + 1)) [0..<d + 1]"

text \<open>
  The body of the second loop of \<open>bootstrapSDP\<close> (main.cpp:862-891) for one
  polynomial matrix \<open>m\<close>. The state is \<open>p\<close>, \<open>sdp.bilinearBases\<close>, \<open>sdp.blocks\<close> and
  \<open>sdp.polMatrixValues\<close>; a primed name is the variable of that name in the code, and \<open>pmv\<close> is
  \<open>sdp.polMatrixValues\<close>.
\<close>

definition bootstrapSDP_samples ::
  "nat \<Rightarrow> Vector \<Rightarrow> PolynomialVectorMatrix \<Rightarrow> int \<Rightarrow> nat \<times> Matrix \<Rightarrow> error + nat \<times> Matrix" where
  "bootstrapSDP_samples objDimension' xs m degree st =
     foldl_err (\<lambda>st s.
         foldl_err (\<lambda>st r.
             foldl_err (\<lambda>(p, pmv) k.
                 case nth_checked xs k of
                   Inl e \<Rightarrow> Inl e
                 | Inr xk \<Rightarrow>
                     (case foldl_err (\<lambda>pmv n.
                              case PolynomialVectorMatrix_get m r s of
                                Inl e \<Rightarrow> Inl e
                              | Inr pols \<Rightarrow>
                                  (case nth_checked pols n of
                                     Inl e \<Rightarrow> Inl e
                                   | Inr pol \<Rightarrow>
                                       (case Polynomial_eval pol xk of
                                          Inl e \<Rightarrow> Inl e
                                        | Inr y \<Rightarrow> Inr (Matrix_set pmv p n y))))
                            pmv [0..<objDimension'] of
                        Inl e \<Rightarrow> Inl e
                      | Inr pmv' \<Rightarrow> Inr (p + 1, pmv')))
               st [0..<nat (degree + 1)])
           st [0..<s + 1])
       st [0..<nat (pvm_cols m)]"

definition bootstrapSDP_group ::
  "nat \<Rightarrow> Vector \<Rightarrow> nat \<times> Matrix list \<times> nat list list \<times> Matrix \<Rightarrow> PolynomialVectorMatrix \<Rightarrow>
   error + nat \<times> Matrix list \<times> nat list list \<times> Matrix" where
  "bootstrapSDP_group objDimension' xs st m =
     (case st of (p, bases, blocks', pmv) \<Rightarrow>
       (let degree = PolynomialVectorMatrix_degree m;
            delta1 = cdiv degree 2;
            delta2 = cdiv (degree - 1) 2
        in (case monomialAlgebraBasis (nat delta1) (nat degree) xs False of
             Inl e \<Rightarrow> Inl e
           | Inr basis1 \<Rightarrow>
               (case (if delta2 \<ge> 0
                      then (case monomialAlgebraBasis (nat delta2) (nat degree) xs True of
                              Inl e \<Rightarrow> Inl e
                            | Inr basis2 \<Rightarrow>
                                Inr ([length bases, length bases + 1], bases @ [basis1, basis2]))
                      else Inr ([length bases], bases @ [basis1])) of
                  Inl e \<Rightarrow> Inl e
                | Inr (blocks_m, bases') \<Rightarrow>
                    (case bootstrapSDP_samples objDimension' xs m degree (p, pmv) of
                       Inl e \<Rightarrow> Inl e
                     | Inr (p', pmv') \<Rightarrow>
                         Inr (p', bases', blocks' @ [blocks_m], pmv'))))))"

text \<open>
  \<open>bootstrapSDP\<close> (main.cpp:830-900). The first loop collects \<open>dimensions\<close>, \<open>degrees\<close>
  and \<open>numConstraints\<close>; the normalization constraint is appended; the second loop
  fills the bases and the sampled values; \<open>assert(p == sdp.numConstraints-1)\<close>; the last
  row of \<open>polMatrixValues\<close> is the normalization.
\<close>

definition bootstrapSDP ::
  "Vector \<Rightarrow> Vector \<Rightarrow> PolynomialVectorMatrix list \<Rightarrow> Vector \<Rightarrow> error + SDP" where
  "bootstrapSDP objective' normalization positiveMatrixPols xs =
     (let objDimension' = length objective';
          dimensions' = map pvm_cols positiveMatrixPols @ [1];
          degrees' = map PolynomialVectorMatrix_degree positiveMatrixPols @ [0];
          numConstraints' =
            nat (foldl (\<lambda>n m. n + cdiv ((PolynomialVectorMatrix_degree m + 1) * pvm_cols m
                                          * (pvm_cols m + 1)) 2)
                   0 positiveMatrixPols + 1);
          affineConstants' = (replicate numConstraints' 0)[numConstraints' - 1 := 1]
      in case foldl_err (bootstrapSDP_group objDimension' xs)
                (0, [], [], Matrix_new numConstraints' objDimension') positiveMatrixPols of
           Inl e \<Rightarrow> Inl e
         | Inr (p, bases, blocks', pmv') \<Rightarrow>
             if p \<noteq> numConstraints' - 1 then Inl AssertionFailed
             else
               (case foldl_err (\<lambda>pmv n.
                        case nth_checked normalization n of
                          Inl e \<Rightarrow> Inl e
                        | Inr a \<Rightarrow> Inr (Matrix_set pmv p n a))
                      pmv' [0..<objDimension'] of
                  Inl e \<Rightarrow> Inl e
                | Inr pmv'' \<Rightarrow>
                    Inr \<lparr>bilinearBases = bases,
                         numConstraints = numConstraints',
                         objDimension = objDimension',
                         polMatrixValues = pmv'',
                         affineConstants = affineConstants',
                         objective = objective',
                         dimensions = dimensions',
                         degrees = degrees',
                         blocks = blocks' @ [[]]\<rparr>))"

section \<open>Matrices as buffers\<close>

lemma Matrix_new_wf: "Matrix_wf (Matrix_new r c)"
  by (simp add: Matrix_wf_def Matrix_new_def)

lemma foldl_err_Inr:
  assumes "\<And>st x. x \<in> set xs \<Longrightarrow> f st x = Inr (g st x)"
  shows "foldl_err f st xs = Inr (foldl g st xs)"
  using assms by (induction xs arbitrary: st) simp_all

lemma index_less:
  assumes "r < m" "c < (n::nat)"
  shows "r + c * m < m * n"
proof -
  have "r + c * m < m + c * m" using assms by simp
  also have "\<dots> = Suc c * m" by simp
  also have "\<dots> \<le> n * m" using assms by (intro mult_le_mono1) simp
  finally show ?thesis by (simp add: mult.commute)
qed

lemma index_inj:
  assumes "r < m" "r' < (m::nat)"
  shows "r + c * m = r' + c' * m \<longleftrightarrow> r = r' \<and> c = c'"
proof
  assume eq: "r + c * m = r' + c' * m"
  from eq have "(r + c * m) div m = (r' + c' * m) div m" by simp
  with assms have c: "c = c'" by simp
  with eq show "r = r' \<and> c = c'" by simp
qed simp

lemma foldl_err_append:
  "foldl_err f st (xs @ ys) =
     (case foldl_err f st xs of Inl e \<Rightarrow> Inl e | Inr st' \<Rightarrow> foldl_err f st' ys)"
  by (induction xs arbitrary: st) (simp_all split: sum.splits)

lemma Matrix_set_shape [simp]:
  "rows (Matrix_set M r c a) = rows M" "cols (Matrix_set M r c a) = cols M"
  "length (elements (Matrix_set M r c a)) = length (elements M)"
  by (simp_all add: Matrix_set_def)

lemma Matrix_addElt_shape [simp]:
  "rows (Matrix_addElt M r c a) = rows M" "cols (Matrix_addElt M r c a) = cols M"
  "length (elements (Matrix_addElt M r c a)) = length (elements M)"
  by (simp_all add: Matrix_addElt_def)

lemma Matrix_wf_set [simp]: "Matrix_wf (Matrix_set M r c a) = Matrix_wf M"
  by (simp add: Matrix_wf_def)

lemma Matrix_wf_addElt [simp]: "Matrix_wf (Matrix_addElt M r c a) = Matrix_wf M"
  by (simp add: Matrix_wf_def)

lemma Matrix_get_set:
  assumes "Matrix_wf M" "r < rows M" "c < cols M" "r' < rows M"
  shows "Matrix_get (Matrix_set M r c a) r' c' = (if r = r' \<and> c = c' then a else Matrix_get M r' c')"
proof -
  have "r + c * rows M < length (elements M)"
    using assms by (simp add: Matrix_wf_def index_less)
  then show ?thesis
    using assms index_inj [of r "rows M" r' c c']
    by (simp add: Matrix_get_def Matrix_set_def nth_list_update)
qed

lemma Matrix_get_addElt:
  assumes "Matrix_wf M" "r < rows M" "c < cols M" "r' < rows M"
  shows "Matrix_get (Matrix_addElt M r c a) r' c'
       = (if r = r' \<and> c = c' then Matrix_get M r' c' + a else Matrix_get M r' c')"
proof -
  have "r + c * rows M < length (elements M)"
    using assms by (simp add: Matrix_wf_def index_less)
  then show ?thesis
    using assms index_inj [of r "rows M" r' c c']
    by (auto simp add: Matrix_get_def Matrix_addElt_def nth_list_update)
qed

lemma Matrix_writes_simps [simp]:
  "Matrix_writes M [] = M"
  "Matrix_writes M (w # ws) = Matrix_writes (Matrix_set M (fst (fst w)) (snd (fst w)) (snd w)) ws"
  "Matrix_writes M (ws @ ws') = Matrix_writes (Matrix_writes M ws) ws'"
  by (simp_all add: Matrix_writes_def)

lemma Matrix_adds_simps [simp]:
  "Matrix_adds M [] = M"
  "Matrix_adds M (w # ws) = Matrix_adds (Matrix_addElt M (fst (fst w)) (snd (fst w)) (snd w)) ws"
  "Matrix_adds M (ws @ ws') = Matrix_adds (Matrix_adds M ws) ws'"
  by (simp_all add: Matrix_adds_def)

lemma Matrix_writes_shape [simp]:
  "rows (Matrix_writes M ws) = rows M" "cols (Matrix_writes M ws) = cols M"
  "Matrix_wf (Matrix_writes M ws) = Matrix_wf M"
  by (induction ws arbitrary: M) simp_all

lemma Matrix_adds_shape [simp]:
  "rows (Matrix_adds M ws) = rows M" "cols (Matrix_adds M ws) = cols M"
  "Matrix_wf (Matrix_adds M ws) = Matrix_wf M"
  by (induction ws arbitrary: M) simp_all

lemma inside_simps [simp]:
  "inside (Matrix_set M r c a) = inside M" "inside (Matrix_addElt M r c a) = inside M"
  "inside (Matrix_writes M ws) = inside M" "inside (Matrix_adds M ws) = inside M"
  by (simp_all add: inside_def fun_eq_iff)

lemma Matrix_get_writes_other:
  assumes "Matrix_wf M" "\<forall>w \<in> set ws. inside M (fst w)" "R < rows M"
    and "\<forall>w \<in> set ws. fst w \<noteq> (R, C)"
  shows "Matrix_get (Matrix_writes M ws) R C = Matrix_get M R C"
  using assms
proof (induction ws arbitrary: M)
  case Nil
  show ?case by simp
next
  case (Cons w ws)
  let ?M = "Matrix_set M (fst (fst w)) (snd (fst w)) (snd w)"
  have "Matrix_get (Matrix_writes ?M ws) R C = Matrix_get ?M R C"
    using Cons.prems by (intro Cons.IH) simp_all
  also have "\<dots> = Matrix_get M R C"
    using Cons.prems by (cases w) (auto simp: Matrix_get_set inside_def)
  finally show ?case by simp
qed

lemma Matrix_get_writes:
  assumes "Matrix_wf M" "\<forall>w \<in> set ws. inside M (fst w)" "R < rows M"
    and "\<forall>w \<in> set ws. fst w = (R, C) \<longrightarrow> snd w = v"
    and "\<exists>w \<in> set ws. fst w = (R, C)"
  shows "Matrix_get (Matrix_writes M ws) R C = v"
  using assms
proof (induction ws arbitrary: M rule: rev_induct)
  case Nil
  then show ?case by simp
next
  case (snoc w ws)
  let ?M = "Matrix_writes M ws"
  have in_w: "fst (fst w) < rows ?M" "snd (fst w) < cols ?M"
    using snoc.prems(2) by (simp_all add: inside_def)
  show ?case
  proof (cases "fst w = (R, C)")
    case True
    with snoc.prems in_w show ?thesis
      by (simp add: Matrix_get_set)
  next
    case False
    with snoc.prems(5) have ex: "\<exists>w \<in> set ws. fst w = (R, C)" by auto
    have "Matrix_get ?M R C = v"
      using snoc.prems ex by (intro snoc.IH) simp_all
    moreover have "\<not> (fst (fst w) = R \<and> snd (fst w) = C)"
      using False by (cases w) auto
    ultimately show ?thesis
      using snoc.prems(1,3) in_w by (auto simp add: Matrix_get_set)
  qed
qed

lemma Matrix_get_adds:
  assumes "Matrix_wf M" "\<forall>w \<in> set ws. inside M (fst w)" "R < rows M"
  shows "Matrix_get (Matrix_adds M ws) R C
       = Matrix_get M R C + sum_list (map snd (filter (\<lambda>w. fst w = (R, C)) ws))"
  using assms
proof (induction ws arbitrary: M)
  case Nil
  show ?case by simp
next
  case (Cons w ws)
  let ?M = "Matrix_addElt M (fst (fst w)) (snd (fst w)) (snd w)"
  have "Matrix_get (Matrix_adds ?M ws) R C
      = Matrix_get ?M R C + sum_list (map snd (filter (\<lambda>w. fst w = (R, C)) ws))"
    using Cons.prems by (intro Cons.IH) simp_all
  moreover have "Matrix_get ?M R C = Matrix_get M R C + (if fst w = (R, C) then snd w else 0)"
    using Cons.prems by (cases w) (auto simp: Matrix_get_addElt inside_def)
  ultimately show ?case by simp
qed

lemma foldl_writes:
  assumes "\<And>M x. rows M = m \<Longrightarrow> cols M = n \<Longrightarrow> f M x = Matrix_writes M (g x)"
    and "rows M = m" "cols M = n"
  shows "foldl f M xs = Matrix_writes M (concat (map g xs))"
  using assms(2,3) by (induction xs arbitrary: M) (simp_all add: assms(1))

lemma foldl_adds:
  assumes "\<And>M x. rows M = m \<Longrightarrow> cols M = n \<Longrightarrow> f M x = Matrix_adds M (g x)"
    and "rows M = m" "cols M = n"
  shows "foldl f M xs = Matrix_adds M (concat (map g xs))"
  using assms(2,3) by (induction xs arbitrary: M) (simp_all add: assms(1))

lemma foldl_plus_sum: "foldl (\<lambda>tmp k. tmp + f k) (a::real) [0..<n] = a + (\<Sum>k<n. f k)"
  by (induction n) simp_all

lemma foldl_plus_sum_list: "foldl (\<lambda>tmp x. tmp + f x) (a::real) xs = a + sum_list (map f xs)"
  by (induction xs arbitrary: a) simp_all

lemma foldl_update_minus:
  assumes "p < length d"
  shows "foldl (\<lambda>d x. d[p := d ! p - f x]) d xs = d[p := d ! p - sum_list (map f xs) :: real]"
  using assms
proof (induction xs arbitrary: d)
  case Nil
  then show ?case by simp
next
  case (Cons x xs)
  have "p < length (d[p := d ! p - f x])" using Cons.prems by simp
  from Cons.IH [OF this] Cons.prems show ?case
    by (simp add: algebra_simps)
qed

lemma sum_list_upt: "sum_list (map f [0..<n]) = (\<Sum>i<n. f i :: real)"
  by (induction n) simp_all

lemma foldl_nested:
  "foldl (\<lambda>st j. foldl (g j) st (h j)) st js
     = foldl (\<lambda>st jt. g (fst jt) st (snd jt)) st (concat (map (\<lambda>j. map (Pair j) (h j)) js))"
  by (induction js arbitrary: st) (simp_all add: foldl_map)

lemma foldl_updates_cond:
  assumes "\<And>d x. x \<in> set xs \<Longrightarrow> length d = L \<Longrightarrow> f d x = d[key x := val x]"
    and "length d = L"
  shows "foldl f d xs = foldl (\<lambda>d x. d[key x := val x]) d xs"
  using assms
proof (induction xs arbitrary: d)
  case Nil
  show ?case by simp
next
  case (Cons x xs)
  have "f d x = d[key x := val x]"
    using Cons.prems by simp
  moreover have "foldl f (d[key x := val x]) xs = foldl (\<lambda>d x. d[key x := val x]) (d[key x := val x]) xs"
    using Cons.prems by (intro Cons.IH) simp_all
  ultimately show ?case by simp
qed

lemma length_foldl_updates [simp]:
  "length (foldl (\<lambda>d x. d[key x := val x]) d xs) = length d"
  by (induction xs arbitrary: d) simp_all

lemma nth_foldl_updates:
  assumes "i < length d" "x0 \<in> set xs" "key x0 = i"
    and "\<And>x. x \<in> set xs \<Longrightarrow> key x = i \<Longrightarrow> val x = val x0"
  shows "foldl (\<lambda>d x. d[key x := val x]) d xs ! i = val x0"
  using assms(2,4)
proof (induction xs rule: rev_induct)
  case Nil
  then show ?case by simp
next
  case (snoc x xs)
  show ?case
  proof (cases "key x = i")
    case True
    with snoc.prems assms(1) show ?thesis by simp
  next
    case False
    with snoc.prems assms(3) have "x0 \<in> set xs" by auto
    with snoc False show ?thesis by simp
  qed
qed

section \<open>The Cholesky factorisation and its failure\<close>

lemma Rpotrf_not_pd: "Rpotrf 1 [- 1] = ([- 1], 1)"
  by (simp add: Rpotrf_def Rpotrf_column_def)

lemma Rpotrf_pd: "Rpotrf 2 [4, 2, 2, 5] = ([2, 1, 2, 2], 0)"
  by (simp add: Rpotrf_def Rpotrf_column_def upt_rec Let_def)

lemma choleskyDecomposition_pd:
  "choleskyDecomposition \<lparr>rows = 2, cols = 2, elements = [4, 2, 2, 5]\<rparr> (Matrix_new 2 2)
     = Inr \<lparr>rows = 2, cols = 2, elements = [2, 1, 0, 2]\<rparr>"
  using Rpotrf_pd by (simp add: choleskyDecomposition_def Rcopy_def Matrix_new_def upt_rec)

text \<open>
  C2. On the \<open>1 \<times> 1\<close> matrix \<open>(-1)\<close>, which is symmetric and not positive definite,
  \<open>Rpotrf\<close> signals the failure (\<open>info = 1\<close>), and \<open>choleskyDecomposition\<close> returns
  normally with \<open>(-1)\<close> as the factor: the failure does not reach the caller.
\<close>

theorem choleskyDecomposition_drops_info:
  "snd (Rpotrf 1 [- 1]) = 1 \<and>
   choleskyDecomposition \<lparr>rows = 1, cols = 1, elements = [- 1]\<rparr> (Matrix_new 1 1)
     = Inr \<lparr>rows = 1, cols = 1, elements = [- 1]\<rparr>"
  using Rpotrf_not_pd by (simp add: choleskyDecomposition_def Rcopy_def Matrix_new_def)

text \<open>
  In general the only failure of \<open>choleskyDecomposition\<close> is a failed assert on the
  shapes; the result is built from the array \<open>Rpotrf\<close> leaves, whatever \<open>info\<close> says.
\<close>

lemma choleskyDecomposition_never_reports:
  "choleskyDecomposition a result =
     (if cols a = rows a \<and> rows result = rows a \<and> cols result = rows a
      then Inr (result\<lparr>elements :=
                  foldl (\<lambda>e j. foldl (\<lambda>e i. e[i + j * rows a := 0]) e [0..<j])
                    (fst (Rpotrf (rows a) (Rcopy (rows a * rows a) (elements a) (elements result))))
                    [0..<rows a]\<rparr>)
      else Inl AssertionFailed)"
  by (simp add: choleskyDecomposition_def Let_def split: prod.splits)

section \<open>Correctness of the tensor congruence\<close>

lemma sum_block:
  fixes l m q :: nat and h :: "nat \<Rightarrow> real"
  assumes "q < m"
  shows "(\<Sum>i<l * m. if i div l = q then h i else 0) = (\<Sum>k<l. h (q * l + k))"
proof (cases "l = 0")
  case True
  then show ?thesis by simp
next
  case False
  have set_eq: "{..<l * m} \<inter> {i. i div l = q} = {q * l..<q * l + l}"
  proof (intro set_eqI iffI)
    fix i assume "i \<in> {..<l * m} \<inter> {i. i div l = q}"
    then have "i div l = q" by simp
    with div_mult_mod_eq [of i l] have "i = q * l + i mod l" by simp
    moreover have "i mod l < l" using False by simp
    ultimately have "q * l \<le> i" "i < q * l + l" by linarith+
    then show "i \<in> {q * l..<q * l + l}" by simp
  next
    fix i assume i: "i \<in> {q * l..<q * l + l}"
    then have "i div l = q"
      using False by (intro div_nat_eqI) (simp_all add: mult.commute)
    moreover have "q * l + l \<le> l * m"
    proof -
      have "Suc q * l \<le> m * l" using assms by (intro mult_le_mono1) simp
      then show ?thesis by (simp add: mult.commute)
    qed
    with i have "i < l * m" by simp
    ultimately show "i \<in> {..<l * m} \<inter> {i. i div l = q}" by simp
  qed
  have "(\<Sum>i<l * m. if i div l = q then h i else 0) = sum h ({..<l * m} \<inter> {i. i div l = q})"
    by (simp add: sum.inter_restrict)
  also have "\<dots> = sum h {0 + q * l..<l + q * l}"
    by (simp add: set_eq add.commute)
  also have "\<dots> = (\<Sum>k = 0..<l. h (k + q * l))"
    by (rule sum.shift_bounds_nat_ivl)
  also have "\<dots> = (\<Sum>k<l. h (q * l + k))"
    by (simp add: atLeast0LessThan add.commute)
  finally show ?thesis .
qed

lemma kronecker_identity_sum:
  fixes l m n R :: nat
  assumes "R < n * m"
  shows "(\<Sum>i<l * m. kronecker identity l n B i R * F i)
       = (\<Sum>k<l. B k (R mod n) * F ((R div n) * l + k))"
proof (cases "l = 0")
  case True
  then show ?thesis by simp
next
  case False
  have q: "R div n < m"
    using assms by (simp add: less_mult_imp_div_less mult.commute)
  have "(\<Sum>i<l * m. kronecker identity l n B i R * F i)
      = (\<Sum>i<l * m. if i div l = R div n then B (i mod l) (R mod n) * F i else 0)"
    by (intro sum.cong refl) (simp add: kronecker_def identity_def)
  also have "\<dots> = (\<Sum>k<l. B ((R div n * l + k) mod l) (R mod n) * F (R div n * l + k))"
    by (rule sum_block [OF q])
  also have "\<dots> = (\<Sum>k<l. B k (R mod n) * F (R div n * l + k))"
    by (intro sum.cong refl) simp
  finally show ?thesis .
qed

lemma congruence_kronecker_identity:
  assumes "R < n * m" "C < n * m"
  shows "congruence (l * m) (kronecker identity l n B) A R C
       = (\<Sum>k<l. B k (R mod n) *
            (\<Sum>k'<l. A (R div n * l + k) (C div n * l + k') * B k' (C mod n)))"
proof -
  have inner: "(\<Sum>j<l * m. kronecker identity l n B i R * A i j * kronecker identity l n B j C)
      = kronecker identity l n B i R * (\<Sum>k'<l. A i (C div n * l + k') * B k' (C mod n))" for i
  proof -
    have "(\<Sum>j<l * m. kronecker identity l n B i R * A i j * kronecker identity l n B j C)
        = kronecker identity l n B i R * (\<Sum>j<l * m. kronecker identity l n B j C * A i j)"
      by (simp add: sum_distrib_left mult_ac)
    also have "(\<Sum>j<l * m. kronecker identity l n B j C * A i j)
        = (\<Sum>k'<l. B k' (C mod n) * A i (C div n * l + k'))"
      by (rule kronecker_identity_sum [OF assms(2)])
    finally show ?thesis by (simp add: mult.commute)
  qed
  show ?thesis
    unfolding congruence_def inner
    by (rule kronecker_identity_sum [OF assms(1)])
qed

lemma congruence_symmetric:
  assumes "\<And>i j. i < N \<Longrightarrow> j < N \<Longrightarrow> A i j = A j i"
  shows "congruence N K A R C = congruence N K A C R"
proof -
  have "congruence N K A R C = (\<Sum>j<N. \<Sum>i<N. K i R * A i j * K j C)"
    unfolding congruence_def by (rule sum.swap)
  also have "\<dots> = (\<Sum>j<N. \<Sum>i<N. K j C * A j i * K i R)"
    by (intro sum.cong refl) (simp add: assms mult_ac)
  finally show ?thesis by (simp add: congruence_def)
qed

lemma in_concat_mapI: "c \<in> set cs \<Longrightarrow> x \<in> set (f c) \<Longrightarrow> x \<in> set (concat (map f cs))"
  by auto

lemma Matrix_symmetricI:
  assumes "rows A = cols A" "\<And>r c. r < rows A \<Longrightarrow> c < rows A \<Longrightarrow> Matrix_get A r c = Matrix_get A c r"
  shows "Matrix_symmetric A"
  using assms by (simp add: Matrix_symmetric_def list_all_iff)

lemma Matrix_symmetricD:
  assumes "Matrix_symmetric A" "r < rows A" "c < rows A"
  shows "Matrix_get A r c = Matrix_get A c r"
  using assms by (simp add: Matrix_symmetric_def list_all_iff)

lemma tensorMatrixCongruence_writes:
  fixes a b work result :: Matrix and m :: nat
  defines "l \<equiv> rows b" and "n \<equiv> cols b"
  defines "wv \<equiv> \<lambda>r c. \<Sum>k<l. Matrix_get a r (c div n * l + k) * Matrix_get b k (c mod n)"
  defines "work' \<equiv> Matrix_writes work
      (concat (map (\<lambda>c. concat (map (\<lambda>r. [((r, c), wv r c)]) [0..<l * m])) [0..<n * m]))"
  defines "rv \<equiv> \<lambda>r c. \<Sum>k<l. Matrix_get b k (r mod n) * Matrix_get work' (r div n * l + k) c"
  defines "result' \<equiv> Matrix_writes result
      (concat (map (\<lambda>c. concat (map (\<lambda>r. ((r, c), rv r c) # (if c \<noteq> r then [((c, r), rv r c)] else []))
         [0..<c + 1])) [0..<n * m]))"
  assumes "0 < l" "rows a = l * m" "rows work = l * m" "cols work = n * m"
    "rows result = n * m" "cols result = n * m"
  shows "tensorMatrixCongruence a b work result = Inr (work', result')"
proof -
  have div: "rows a div rows b = m"
    using assms by simp
  have inner1: "foldl (\<lambda>work r.
          Matrix_set work r c
            (foldl (\<lambda>tmp k. tmp + Matrix_get a r (c div n * l + k) * Matrix_get b k (c mod n))
                      0 [0..<l])) M [0..<l * m]
      = Matrix_writes M (concat (map (\<lambda>r. [((r, c), wv r c)]) [0..<l * m]))"
    if "rows M = l * m" "cols M = n * m" for M c
    by (rule foldl_writes [where m = "l * m" and n = "n * m"])
      (simp_all add: that wv_def foldl_plus_sum)
  have outer1: "foldl (\<lambda>work c.
       foldl (\<lambda>work r.
          Matrix_set work r c
            (foldl (\<lambda>tmp k. tmp + Matrix_get a r (c div n * l + k) * Matrix_get b k (c mod n))
                      0 [0..<l])) work [0..<rows work]) work [0..<n * m] = work'"
    unfolding work'_def
    by (rule foldl_writes [where m = "l * m" and n = "n * m"])
      (simp_all only: assms(7-) inner1)
  have inner2: "foldl (\<lambda>result r.
          if c \<noteq> r
          then Matrix_set (Matrix_set result r c
                  (foldl (\<lambda>tmp k. tmp + Matrix_get b k (r mod n) * Matrix_get work' (r div n * l + k) c)
                      0 [0..<l])) c r
                  (foldl (\<lambda>tmp k. tmp + Matrix_get b k (r mod n) * Matrix_get work' (r div n * l + k) c)
                      0 [0..<l])
          else Matrix_set result r c
                  (foldl (\<lambda>tmp k. tmp + Matrix_get b k (r mod n) * Matrix_get work' (r div n * l + k) c)
                      0 [0..<l])) M [0..<c + 1]
      = Matrix_writes M
          (concat (map (\<lambda>r. ((r, c), rv r c) # (if c \<noteq> r then [((c, r), rv r c)] else [])) [0..<c + 1]))"
    if "rows M = n * m" "cols M = n * m" for M c
    by (rule foldl_writes [where m = "n * m" and n = "n * m"])
      (simp_all add: that rv_def foldl_plus_sum)
  have outer2: "foldl (\<lambda>result c.
       foldl (\<lambda>result r.
          if c \<noteq> r
          then Matrix_set (Matrix_set result r c
                  (foldl (\<lambda>tmp k. tmp + Matrix_get b k (r mod n) * Matrix_get work' (r div n * l + k) c)
                      0 [0..<l])) c r
                  (foldl (\<lambda>tmp k. tmp + Matrix_get b k (r mod n) * Matrix_get work' (r div n * l + k) c)
                      0 [0..<l])
          else Matrix_set result r c
                  (foldl (\<lambda>tmp k. tmp + Matrix_get b k (r mod n) * Matrix_get work' (r div n * l + k) c)
                      0 [0..<l])) result [0..<c + 1])
       result [0..<n * m] = result'"
    unfolding result'_def
    by (rule foldl_writes [where m = "n * m" and n = "n * m"])
      (simp_all only: assms(7-) inner2)
  have nz: "rows b \<noteq> 0" and asserts: "rows result = cols b * m \<and> cols result = cols b * m \<and>
      rows work = rows a \<and> cols work = cols result"
    using assms(7-) by (simp_all add: l_def n_def)
  have sizes: "cols work = n * m" "cols result = n * m"
    by (fact assms)+
  show ?thesis
    unfolding tensorMatrixCongruence_def div Let_def
    apply (simp only: nz asserts if_False simp_thms)
    apply (simp only: l_def [symmetric] n_def [symmetric] sizes outer1 outer2)
    done
qed

text \<open>
  C6 as amended. For \<open>b\<close> of size \<open>l \<times> n\<close> with \<open>l \<ge> 1\<close> and \<open>a\<close> of size
  \<open>(l m) \<times> (l m)\<close>, \<open>tensorMatrixCongruence\<close> passes its asserts and leaves in \<open>result\<close>,
  of size \<open>(n m) \<times> (n m)\<close>: on and above the diagonal the entries of
  \<open>(I\<^sub>m \<otimes> b)\<^sup>T a (I\<^sub>m \<otimes> b)\<close>, and below the diagonal the mirror image of the entries
  above it (whether or not \<open>a\<close> is symmetric), so that \<open>result\<close> is symmetric; for a
  symmetric \<open>a\<close> the whole of \<open>result\<close> is \<open>(I\<^sub>m \<otimes> b)\<^sup>T a (I\<^sub>m \<otimes> b)\<close>.
\<close>

theorem tensorMatrixCongruence_correct:
  assumes b: "0 < rows b" "Matrix_wf b"
    and a: "Matrix_wf a" "rows a = rows b * m" "cols a = rows b * m"
    and work: "Matrix_wf work" "rows work = rows b * m" "cols work = cols b * m"
    and result: "Matrix_wf result" "rows result = cols b * m" "cols result = cols b * m"
  shows "\<exists>work' result'.
      tensorMatrixCongruence a b work result = Inr (work', result') \<and>
      Matrix_wf result' \<and> rows result' = cols b * m \<and> cols result' = cols b * m \<and>
      Matrix_symmetric result' \<and>
      (\<forall>R C. R \<le> C \<and> C < cols b * m \<longrightarrow>
         Matrix_get result' R C
           = congruence (rows a) (kronecker identity (rows b) (cols b) (Matrix_get b)) (Matrix_get a) R C \<and>
         Matrix_get result' C R = Matrix_get result' R C) \<and>
      (Matrix_symmetric a \<longrightarrow>
         (\<forall>R C. R < cols b * m \<and> C < cols b * m \<longrightarrow>
            Matrix_get result' R C
              = congruence (rows a) (kronecker identity (rows b) (cols b) (Matrix_get b)) (Matrix_get a) R C))"
proof -
  define l n where "l = rows b" and "n = cols b"
  define wv where "wv = (\<lambda>r c. \<Sum>k<l. Matrix_get a r (c div n * l + k) * Matrix_get b k (c mod n))"
  define ws1 where "ws1 = concat (map (\<lambda>c. concat (map (\<lambda>r. [((r, c), wv r c)]) [0..<l * m])) [0..<n * m])"
  define work' where "work' = Matrix_writes work ws1"
  define rv where "rv = (\<lambda>r c. \<Sum>k<l. Matrix_get b k (r mod n) * Matrix_get work' (r div n * l + k) c)"
  define ws2 where "ws2 = concat (map (\<lambda>c. concat (map (\<lambda>r. ((r, c), rv r c) #
      (if c \<noteq> r then [((c, r), rv r c)] else [])) [0..<c + 1])) [0..<n * m])"
  define result' where "result' = Matrix_writes result ws2"
  let ?cong = "congruence (l * m) (kronecker identity l n (Matrix_get b)) (Matrix_get a)"
  have run: "tensorMatrixCongruence a b work result = Inr (work', result')"
    unfolding result'_def ws2_def rv_def work'_def ws1_def wv_def l_def n_def
    by (rule tensorMatrixCongruence_writes) (use assms in simp_all)
  have shape: "Matrix_wf result'" "rows result' = n * m" "cols result' = n * m"
    using result by (simp_all add: result'_def n_def)
  have work_entry: "Matrix_get work' r c = wv r c" if "r < l * m" "c < n * m" for r c
    unfolding work'_def
  proof (rule Matrix_get_writes)
    show "Matrix_wf work" by (fact work)
    show "\<forall>w \<in> set ws1. inside work (fst w)"
      using work by (auto simp: ws1_def inside_def l_def n_def)
    show "r < rows work" using that work by (simp add: l_def)
    show "\<forall>w \<in> set ws1. fst w = (r, c) \<longrightarrow> snd w = wv r c"
      by (auto simp: ws1_def)
    show "\<exists>w \<in> set ws1. fst w = (r, c)"
      using that by (auto simp: ws1_def)
  qed
  have mem2: "w \<in> set ws2 \<longleftrightarrow>
      (\<exists>r c. c < n * m \<and> r \<le> c \<and> (w = ((r, c), rv r c) \<or> (c \<noteq> r \<and> w = ((c, r), rv r c))))" for w
  proof
    assume "w \<in> set ws2"
    then obtain c r where "c < n * m" "r \<le> c"
      "w \<in> set (((r, c), rv r c) # (if c \<noteq> r then [((c, r), rv r c)] else []))"
      unfolding ws2_def by (auto simp del: upt_Suc simp: less_Suc_eq_le)
    then show "\<exists>r c. c < n * m \<and> r \<le> c \<and>
        (w = ((r, c), rv r c) \<or> (c \<noteq> r \<and> w = ((c, r), rv r c)))"
      by (intro exI [of _ r] exI [of _ c]) (auto split: if_splits)
  next
    assume "\<exists>r c. c < n * m \<and> r \<le> c \<and>
        (w = ((r, c), rv r c) \<or> (c \<noteq> r \<and> w = ((c, r), rv r c)))"
    then obtain r c where rc: "c < n * m" "r \<le> c"
      and w: "w = ((r, c), rv r c) \<or> (c \<noteq> r \<and> w = ((c, r), rv r c))"
      by blast
    from w have "w \<in> set (((r, c), rv r c) # (if c \<noteq> r then [((c, r), rv r c)] else []))"
      by auto
    moreover have "c \<in> set [0..<n * m]" "r \<in> set [0..<c + 1]"
      using rc by (simp_all del: upt_Suc)
    ultimately show "w \<in> set ws2"
      unfolding ws2_def by (intro in_concat_mapI [of c] in_concat_mapI [of r])
  qed
  have inside2: "\<forall>w \<in> set ws2. inside result (fst w)"
  proof
    fix w assume "w \<in> set ws2"
    then obtain r c where "c < n * m" "r \<le> c"
      "w = ((r, c), rv r c) \<or> (c \<noteq> r \<and> w = ((c, r), rv r c))"
      unfolding mem2 by blast
    then show "inside result (fst w)"
      using result by (auto simp: inside_def n_def)
  qed
  have upper: "Matrix_get result' R C = rv R C" if "R \<le> C" "C < n * m" for R C
    unfolding result'_def
  proof (rule Matrix_get_writes [OF result(1) inside2])
    show "R < rows result" using that result by (simp add: n_def)
    show "\<forall>w \<in> set ws2. fst w = (R, C) \<longrightarrow> snd w = rv R C"
    proof (intro ballI impI)
      fix w assume "w \<in> set ws2" and w: "fst w = (R, C)"
      then obtain r c where "c < n * m" "r \<le> c"
        "w = ((r, c), rv r c) \<or> (c \<noteq> r \<and> w = ((c, r), rv r c))"
        unfolding mem2 by blast
      with w that show "snd w = rv R C" by auto
    qed
    have "((R, C), rv R C) \<in> set ws2"
      unfolding mem2 using that by blast
    then show "\<exists>w \<in> set ws2. fst w = (R, C)"
      by force
  qed
  have lower: "Matrix_get result' C R = rv R C" if "R < C" "C < n * m" for R C
    unfolding result'_def
  proof (rule Matrix_get_writes [OF result(1) inside2])
    show "C < rows result" using that result by (simp add: n_def)
    show "\<forall>w \<in> set ws2. fst w = (C, R) \<longrightarrow> snd w = rv R C"
    proof (intro ballI impI)
      fix w assume "w \<in> set ws2" and w: "fst w = (C, R)"
      then obtain r c where "c < n * m" "r \<le> c"
        "w = ((r, c), rv r c) \<or> (c \<noteq> r \<and> w = ((c, r), rv r c))"
        unfolding mem2 by blast
      with w that show "snd w = rv R C" by auto
    qed
    have "((C, R), rv R C) \<in> set ws2"
      unfolding mem2 using that by (intro exI [of _ R] exI [of _ C]) simp
    then show "\<exists>w \<in> set ws2. fst w = (C, R)"
      by force
  qed
  have rv_cong: "rv R C = ?cong R C" if "R < n * m" "C < n * m" for R C
  proof -
    have "R div n < m"
      using that by (simp add: less_mult_imp_div_less mult.commute)
    then have "R div n * l + k < l * m" if "k < l" for k
      using that index_less [of k l "R div n" m] by (simp add: add.commute)
    then have "rv R C = (\<Sum>k<l. Matrix_get b k (R mod n) * wv (R div n * l + k) C)"
      unfolding rv_def using that by (intro sum.cong refl) (simp add: work_entry)
    also have "\<dots> = ?cong R C"
      unfolding wv_def by (rule congruence_kronecker_identity [OF that, symmetric])
    finally show ?thesis .
  qed
  have mirror: "Matrix_get result' C R = Matrix_get result' R C" if "R \<le> C" "C < n * m" for R C
    using that upper [of R C] lower [of R C] by (cases "R = C") simp_all
  have sym: "Matrix_symmetric result'"
  proof (rule Matrix_symmetricI)
    show "rows result' = cols result'" by (simp add: shape)
    fix r c assume "r < rows result'" "c < rows result'"
    then show "Matrix_get result' r c = Matrix_get result' c r"
      using mirror [of r c] mirror [of c r] by (cases "r \<le> c") (simp_all add: shape)
  qed
  have full: "Matrix_get result' R C = ?cong R C"
    if sa: "Matrix_symmetric a" and "R < n * m" "C < n * m" for R C
  proof (cases "R \<le> C")
    case True
    with that show ?thesis by (simp add: upper rv_cong)
  next
    case False
    then have "C < R" by simp
    then have "Matrix_get result' R C = ?cong C R"
      using that by (simp add: lower rv_cong)
    also have "\<dots> = ?cong R C"
      using Matrix_symmetricD [OF sa] a by (intro congruence_symmetric) (simp add: l_def)
    finally show ?thesis .
  qed
  have ra: "rows a = l * m" using a by (simp add: l_def)
  have up: "\<forall>R C. R \<le> C \<and> C < n * m \<longrightarrow>
      Matrix_get result' R C = ?cong R C \<and> Matrix_get result' C R = Matrix_get result' R C"
    by (simp add: upper rv_cong mirror)
  have all: "Matrix_symmetric a \<longrightarrow>
      (\<forall>R C. R < n * m \<and> C < n * m \<longrightarrow> Matrix_get result' R C = ?cong R C)"
    by (simp add: full)
  from run shape sym up all show ?thesis
    unfolding l_def [symmetric] n_def [symmetric] ra
    by (intro exI [of _ work'] exI [of _ result'] conjI)
qed

lemma tensorMatrixCongruence_zero_rows:
  "rows b = 0 \<Longrightarrow> tensorMatrixCongruence a b work result = Inl DivisionByZero"
  by (simp add: tensorMatrixCongruence_def)

text \<open>
  C6 as stated fails with the Kronecker product read as usual (\<open>b \<otimes> I\<^sub>m\<close> the block
  matrix of the \<open>b\<^sub>i\<^sub>j I\<^sub>m\<close>): for the symmetric \<open>a = diag(1, 2, 3, 4)\<close> and the
  \<open>2 \<times> 1\<close> matrix \<open>b = (1, 0)\<^sup>T\<close>, so \<open>m = 2\<close>, the code returns \<open>diag(1, 3)\<close>, while the
  entry \<open>(1, 1)\<close> of \<open>(b \<otimes> I\<^sub>2)\<^sup>T a (b \<otimes> I\<^sub>2)\<close> is 2.
\<close>

theorem tensorMatrixCongruence_not_b_kron_I:
  "Matrix_symmetric \<lparr>rows = 4, cols = 4, elements = [1, 0, 0, 0, 0, 2, 0, 0, 0, 0, 3, 0, 0, 0, 0, 4]\<rparr> \<and>
   tensorMatrixCongruence
       \<lparr>rows = 4, cols = 4, elements = [1, 0, 0, 0, 0, 2, 0, 0, 0, 0, 3, 0, 0, 0, 0, 4]\<rparr>
       \<lparr>rows = 2, cols = 1, elements = [1, 0]\<rparr> (Matrix_new 4 2) (Matrix_new 2 2)
     = Inr (\<lparr>rows = 4, cols = 2, elements = [1, 0, 0, 0, 0, 0, 3, 0]\<rparr>,
            \<lparr>rows = 2, cols = 2, elements = [1, 0, 0, 3]\<rparr>) \<and>
   Matrix_get \<lparr>rows = 2, cols = 2, elements = [1, 0, 0, 3]\<rparr> 1 1 = 3 \<and>
   congruence 4 (kronecker (Matrix_get \<lparr>rows = 2, cols = 1, elements = [1, 0]\<rparr>) 2 2 identity)
       (Matrix_get \<lparr>rows = 4, cols = 4, elements = [1, 0, 0, 0, 0, 2, 0, 0, 0, 0, 3, 0, 0, 0, 0, 4]\<rparr>)
       1 1 = 2"
proof -
  have "Matrix_symmetric \<lparr>rows = 4, cols = 4, elements = [1, 0, 0, 0, 0, 2, 0, 0, 0, 0, 3, 0, 0, 0, 0, 4]\<rparr>"
    by (simp add: Matrix_symmetric_def Matrix_get_def upt_rec)
  moreover have "tensorMatrixCongruence
       \<lparr>rows = 4, cols = 4, elements = [1, 0, 0, 0, 0, 2, 0, 0, 0, 0, 3, 0, 0, 0, 0, 4]\<rparr>
       \<lparr>rows = 2, cols = 1, elements = [1, 0]\<rparr> (Matrix_new 4 2) (Matrix_new 2 2)
     = Inr (\<lparr>rows = 4, cols = 2, elements = [1, 0, 0, 0, 0, 0, 3, 0]\<rparr>,
            \<lparr>rows = 2, cols = 2, elements = [1, 0, 0, 3]\<rparr>)"
    by (simp add: tensorMatrixCongruence_def Matrix_new_def Matrix_get_def Matrix_set_def
        Let_def upt_rec) (simp add: eval_nat_numeral)
  moreover have "congruence 4
       (kronecker (Matrix_get \<lparr>rows = 2, cols = 1, elements = [1, 0]\<rparr>) 2 2 identity)
       (Matrix_get \<lparr>rows = 4, cols = 4, elements = [1, 0, 0, 0, 0, 2, 0, 0, 0, 0, 3, 0, 0, 0, 0, 4]\<rparr>)
       1 1 = 2"
    by (simp add: congruence_def kronecker_def identity_def Matrix_get_def lessThan_nat_numeral
        lessThan_Suc)
  ultimately show ?thesis
    by (simp add: Matrix_get_def)
qed

theorem tensorMatrixCongruence_correct_witness:
  "\<exists>work' result'.
     tensorMatrixCongruence
       \<lparr>rows = 4, cols = 4, elements = [1, 0, 0, 0, 0, 1, 0, 0, 0, 0, 1, 0, 0, 0, 0, 1]\<rparr>
       \<lparr>rows = 2, cols = 3, elements = [2, 3, 4, 5, 6, 7]\<rparr> (Matrix_new 4 6) (Matrix_new 6 6)
       = Inr (work', result') \<and>
     Matrix_symmetric result' \<and> Matrix_get result' 0 1 = 23 \<and> Matrix_get result' 1 0 = 23 \<and>
     Matrix_get result' 0 3 = 0"
proof -
  let ?a = "\<lparr>rows = 4, cols = 4, elements = [1, 0, 0, 0, 0, 1, 0, 0, 0, 0, 1, 0, 0, 0, 0, 1]\<rparr>"
  let ?b = "\<lparr>rows = 2, cols = 3, elements = [2, 3, 4, 5, 6, 7]\<rparr>"
  let ?cong = "congruence (rows ?a) (kronecker identity (rows ?b) (cols ?b) (Matrix_get ?b)) (Matrix_get ?a)"
  have h: "0 < rows ?b" "Matrix_wf ?b" "Matrix_wf ?a" "rows ?a = rows ?b * 2" "cols ?a = rows ?b * 2"
    "Matrix_wf (Matrix_new 4 6)" "rows (Matrix_new 4 6) = rows ?b * 2"
    "cols (Matrix_new 4 6) = cols ?b * 2"
    "Matrix_wf (Matrix_new 6 6)" "rows (Matrix_new 6 6) = cols ?b * 2"
    "cols (Matrix_new 6 6) = cols ?b * 2"
    by (simp_all add: Matrix_wf_def Matrix_new_def)
  from tensorMatrixCongruence_correct [OF h] obtain work' result' where
    run: "tensorMatrixCongruence ?a ?b (Matrix_new 4 6) (Matrix_new 6 6) = Inr (work', result')"
    and sym: "Matrix_symmetric result'"
    and up: "\<forall>R C. R \<le> C \<and> C < cols ?b * 2 \<longrightarrow>
         Matrix_get result' R C = ?cong R C \<and> Matrix_get result' C R = Matrix_get result' R C"
    by blast
  have "?cong 0 1 = 23" "?cong 0 3 = 0"
    by (simp_all add: congruence_def kronecker_def identity_def Matrix_get_def lessThan_nat_numeral
        lessThan_Suc)
  moreover from up have "Matrix_get result' 0 1 = ?cong 0 1"
    "Matrix_get result' 1 0 = Matrix_get result' 0 1" "Matrix_get result' 0 3 = ?cong 0 3"
    by simp_all
  ultimately show ?thesis
    using run sym by (intro exI [of _ work'] exI [of _ result']) simp
qed

section \<open>Assembly accepts degenerate problems\<close>

text \<open>
  C7 as stated fails: on the empty list of polynomial matrices, and on a single polynomial
  matrix with zero columns, \<open>bootstrapSDP\<close> returns an assembled SDP.
\<close>

theorem bootstrapSDP_accepts_empty:
  "bootstrapSDP [] [] [] [] =
     Inr \<lparr>bilinearBases = [], numConstraints = 1, objDimension = 0,
          polMatrixValues = \<lparr>rows = 1, cols = 0, elements = []\<rparr>,
          affineConstants = [1], objective = [], dimensions = [1], degrees = [0],
          blocks = [[]]\<rparr> \<and>
   bootstrapSDP [] [] [\<lparr>pvm_rows = 0, pvm_cols = 0, pvm_elements = []\<rparr>] [1] =
     Inr \<lparr>bilinearBases =
            [\<lparr>rows = 1, cols = 1, elements = [1]\<rparr>, \<lparr>rows = 1, cols = 1, elements = [1]\<rparr>],
          numConstraints = 1, objDimension = 0,
          polMatrixValues = \<lparr>rows = 1, cols = 0, elements = []\<rparr>,
          affineConstants = [1], objective = [], dimensions = [0, 1], degrees = [0, 0],
          blocks = [[0, 1], []]\<rparr>"
  by (simp add: bootstrapSDP_def bootstrapSDP_group_def bootstrapSDP_samples_def
      PolynomialVectorMatrix_degree_def monomialAlgebraBasis_def nth_checked_def cdiv_def
      Matrix_new_def Matrix_set_def Let_def)

lemma normalization_row:
  assumes "k \<le> length (elements M)" "k \<le> length normalization" "rows M = 1"
  shows "foldl_err (\<lambda>pmv n.
            case nth_checked normalization n of
              Inl e \<Rightarrow> Inl e
            | Inr a \<Rightarrow> Inr (Matrix_set pmv 0 n a)) M [0..<k]
         = Inr (M\<lparr>elements := take k normalization @ drop k (elements M)\<rparr>)"
  using assms
proof (induction k)
  case 0
  show ?case by simp
next
  case (Suc k)
  then have k: "k < length (elements M)" "k < length normalization" by simp_all
  have "drop k (elements M) = elements M ! k # drop (Suc k) (elements M)"
    using k by (simp add: Cons_nth_drop_Suc)
  then have "(take k normalization @ drop k (elements M))[k := normalization ! k]
      = take (Suc k) normalization @ drop (Suc k) (elements M)"
    using k by (simp add: list_update_append take_Suc_conv_app_nth)
  with Suc k show ?case
    by (simp add: foldl_err_append nth_checked_def Matrix_set_def)
qed

lemma cdiv_examples: "cdiv 0 2 = 0" "cdiv (- 1) 2 = 0"
  by (simp_all add: cdiv_def)

lemma monomialAlgebraBasis_zero:
  assumes "xs \<noteq> []" "halfShift \<longrightarrow> 0 \<le> xs ! 0"
  shows "monomialAlgebraBasis 0 0 xs halfShift
     = Inr \<lparr>rows = 1, cols = 1, elements = [if halfShift then sqrt (xs ! 0) else 1]\<rparr>"
  using assms
  by (auto simp add: monomialAlgebraBasis_def nth_checked_def Matrix_new_def Matrix_set_def)

lemma monomialAlgebraBasis_negative:
  assumes "xs \<noteq> []" "xs ! 0 < 0"
  shows "monomialAlgebraBasis d1 d xs True = Inl SqrtOfNegative"
  using assms by (simp add: monomialAlgebraBasis_def nth_checked_def upt_rec [of 0])

text \<open>
  C7 as amended. An empty constraint set and zero dimensions are not rejected. On an empty
  list of polynomial matrices, \<open>bootstrapSDP\<close> returns the SDP of the normalization
  constraint alone, provided \<open>normalization\<close> has an entry for every entry of \<open>objective\<close>.
  On a single polynomial matrix with zero columns and no entries it returns an SDP with a
  group of dimension 0 and degree 0, the two bases of that group and no constraint but the
  normalization, provided in addition that \<open>xs\<close> has a first sample point and that it is not
  negative.
\<close>

theorem bootstrapSDP_no_validation:
  assumes "length objective' \<le> length normalization"
  shows "bootstrapSDP objective' normalization [] xs =
       Inr \<lparr>bilinearBases = [], numConstraints = 1, objDimension = length objective',
            polMatrixValues =
              \<lparr>rows = 1, cols = length objective',
               elements = take (length objective') normalization\<rparr>,
            affineConstants = [1], objective = objective', dimensions = [1], degrees = [0],
            blocks = [[]]\<rparr> \<and>
     (xs \<noteq> [] \<and> 0 \<le> xs ! 0 \<longrightarrow>
      bootstrapSDP objective' normalization
          [\<lparr>pvm_rows = 0, pvm_cols = 0, pvm_elements = []\<rparr>] xs =
       Inr \<lparr>bilinearBases =
              [\<lparr>rows = 1, cols = 1, elements = [1]\<rparr>,
               \<lparr>rows = 1, cols = 1, elements = [sqrt (xs ! 0)]\<rparr>],
            numConstraints = 1, objDimension = length objective',
            polMatrixValues =
              \<lparr>rows = 1, cols = length objective',
               elements = take (length objective') normalization\<rparr>,
            affineConstants = [1], objective = objective', dimensions = [0, 1],
            degrees = [0, 0], blocks = [[0, 1], []]\<rparr>)"
proof -
  let ?n = "length objective'"
  have row: "foldl_err (\<lambda>pmv n.
            case nth_checked normalization n of
              Inl e \<Rightarrow> Inl e
            | Inr a \<Rightarrow> Inr (Matrix_set pmv 0 n a)) (Matrix_new 1 ?n) [0..<?n]
         = Inr \<lparr>rows = 1, cols = ?n, elements = take ?n normalization\<rparr>"
    using assms normalization_row [of ?n "Matrix_new 1 ?n" normalization]
    by (simp add: Matrix_new_def)
  have empty: "bootstrapSDP objective' normalization [] xs =
       Inr \<lparr>bilinearBases = [], numConstraints = 1, objDimension = ?n,
            polMatrixValues = \<lparr>rows = 1, cols = ?n, elements = take ?n normalization\<rparr>,
            affineConstants = [1], objective = objective', dimensions = [1], degrees = [0],
            blocks = [[]]\<rparr>"
    using row by (simp add: bootstrapSDP_def Let_def)
  have zero: "bootstrapSDP objective' normalization
          [\<lparr>pvm_rows = 0, pvm_cols = 0, pvm_elements = []\<rparr>] xs =
       Inr \<lparr>bilinearBases =
              [\<lparr>rows = 1, cols = 1, elements = [1]\<rparr>,
               \<lparr>rows = 1, cols = 1, elements = [sqrt (xs ! 0)]\<rparr>],
            numConstraints = 1, objDimension = ?n,
            polMatrixValues = \<lparr>rows = 1, cols = ?n, elements = take ?n normalization\<rparr>,
            affineConstants = [1], objective = objective', dimensions = [0, 1],
            degrees = [0, 0], blocks = [[0, 1], []]\<rparr>" if "xs \<noteq> []" "0 \<le> xs ! 0"
    using row that
    by (simp add: bootstrapSDP_def bootstrapSDP_group_def bootstrapSDP_samples_def
        PolynomialVectorMatrix_degree_def cdiv_examples monomialAlgebraBasis_zero Let_def)
  from empty zero show ?thesis by simp
qed

theorem bootstrapSDP_no_validation_witness:
  "length [1, 2 :: real] \<le> length [3, 4, 5 :: real] \<and>
   bootstrapSDP [1, 2] [3, 4, 5] [] [1] =
     Inr \<lparr>bilinearBases = [], numConstraints = 1, objDimension = 2,
          polMatrixValues = \<lparr>rows = 1, cols = 2, elements = [3, 4]\<rparr>,
          affineConstants = [1], objective = [1, 2], dimensions = [1], degrees = [0],
          blocks = [[]]\<rparr> \<and>
   bootstrapSDP [1, 2] [3, 4, 5] [\<lparr>pvm_rows = 0, pvm_cols = 0, pvm_elements = []\<rparr>] [1] =
     Inr \<lparr>bilinearBases =
            [\<lparr>rows = 1, cols = 1, elements = [1]\<rparr>, \<lparr>rows = 1, cols = 1, elements = [1]\<rparr>],
          numConstraints = 1, objDimension = 2,
          polMatrixValues = \<lparr>rows = 1, cols = 2, elements = [3, 4]\<rparr>,
          affineConstants = [1], objective = [1, 2], dimensions = [0, 1], degrees = [0, 0],
          blocks = [[0, 1], []]\<rparr>"
proof -
  have h: "length [1, 2 :: real] \<le> length [3, 4, 5 :: real]" by simp
  from bootstrapSDP_no_validation [OF h, of "[1]"] show ?thesis by simp
qed

section \<open>Properties of the constraint index tuples\<close>

lemma numberFrom_Nil [simp]: "numberFrom p [] = []"
  by (simp add: numberFrom_def)

lemma numberFrom_single [simp]:
  "numberFrom p [(r, s, k)] = [\<lparr>it_p = p, it_r = r, it_s = s, it_k = k\<rparr>]"
  by (simp add: numberFrom_def)

lemma numberFrom_append:
  "numberFrom p (xs @ ys) = numberFrom p xs @ numberFrom (p + length xs) ys"
  by (simp add: numberFrom_def enumerate_append_eq)

lemma length_numberFrom [simp]: "length (numberFrom p xs) = length xs"
  by (simp add: numberFrom_def)

lemma nth_numberFrom:
  "i < length xs \<Longrightarrow> numberFrom p xs ! i =
     \<lparr>it_p = p + i, it_r = fst (xs ! i), it_s = fst (snd (xs ! i)), it_k = snd (snd (xs ! i))\<rparr>"
  by (simp add: numberFrom_def nth_enumerate_eq split: prod.split)

lemma map_it_p_numberFrom: "map it_p (numberFrom p xs) = [p..<p + length xs]"
  by (rule nth_equalityI) (simp_all add: nth_numberFrom)

lemma map_rsk_numberFrom: "map (\<lambda>t. (it_r t, it_s t, it_k t)) (numberFrom p xs) = xs"
  by (rule nth_equalityI) (simp_all add: nth_numberFrom)

lemma loop_appends:
  assumes step: "\<And>p T x. j < length T \<Longrightarrow>
      f (p, T) x = (p + length (h x), T[j := T ! j @ numberFrom p (h x)])"
    and j: "j < length T"
  shows "foldl f (p, T) xs =
      (p + length (concat (map h xs)), T[j := T ! j @ numberFrom p (concat (map h xs))])"
  using j
proof (induction xs arbitrary: p T)
  case Nil
  then show ?case by simp
next
  case (Cons x xs)
  let ?T = "T[j := T ! j @ numberFrom p (h x)]"
  have "j < length ?T" using Cons.prems by simp
  from Cons.IH [OF this, of "p + length (h x)"] Cons.prems show ?case
    by (simp add: step numberFrom_append add.assoc)
qed

lemma loop_k:
  assumes "j < length T"
  shows "foldl (\<lambda>(p, tuples) k.
            (p + 1, tuples[j := tuples ! j @ [\<lparr>it_p = p, it_r = r, it_s = s, it_k = k\<rparr>]]))
          (p, T) ks
       = (p + length (map (\<lambda>k. (r, s, k)) ks),
          T[j := T ! j @ numberFrom p (map (\<lambda>k. (r, s, k)) ks)])"
proof -
  have "concat (map (\<lambda>k. [(r, s, k)]) ks) = map (\<lambda>k. (r, s, k)) ks"
    by (induction ks) simp_all
  with loop_appends [where h = "\<lambda>k. [(r, s, k)]" and xs = ks and p = p, OF _ assms]
  show ?thesis by simp
qed

lemma loop_r:
  assumes "j < length T"
  shows "foldl (\<lambda>(p, tuples) r.
            foldl (\<lambda>(p, tuples) k.
                (p + 1, tuples[j := tuples ! j @ [\<lparr>it_p = p, it_r = r, it_s = s, it_k = k\<rparr>]]))
              (p, tuples) ks)
          (p, T) rs
       = (p + length (concat (map (\<lambda>r. map (\<lambda>k. (r, s, k)) ks) rs)),
          T[j := T ! j @ numberFrom p (concat (map (\<lambda>r. map (\<lambda>k. (r, s, k)) ks) rs))])"
  by (rule loop_appends [OF _ assms]) (simp only: prod.case loop_k)

lemma loop_s:
  assumes "j < length T"
  shows "foldl (\<lambda>(p, tuples) s.
            foldl (\<lambda>(p, tuples) r.
                foldl (\<lambda>(p, tuples) k.
                    (p + 1, tuples[j := tuples ! j @ [\<lparr>it_p = p, it_r = r, it_s = s, it_k = k\<rparr>]]))
                  (p, tuples) [0..<nat (degree + 1)])
              (p, tuples) [0..<s + 1])
          (p, T) [0..<nat dimension]
       = (p + length (groupTriples dimension degree),
          T[j := T ! j @ numberFrom p (groupTriples dimension degree)])"
  unfolding groupTriples_def
  by (rule loop_appends [OF _ assms]) (simp only: prod.case loop_r)

lemma triplesBefore_Suc:
  "triplesBefore dims degs (Suc n) = triplesBefore dims degs n @ groupTriples (dims ! n) (degs ! n)"
  by (simp add: triplesBefore_def)

lemma loop_j:
  "foldl (\<lambda>(p, tuples) j.
         foldl (\<lambda>(p, tuples) s.
             foldl (\<lambda>(p, tuples) r.
                 foldl (\<lambda>(p, tuples) k.
                     (p + 1,
                      tuples[j := tuples ! j @ [\<lparr>it_p = p, it_r = r, it_s = s, it_k = k\<rparr>]]))
                   (p, tuples) [0..<nat (degs ! j + 1)])
               (p, tuples) [0..<s + 1])
           (p, tuples @ [[]]) [0..<nat (dims ! j)])
       (0, []) [0..<n]
   = (length (triplesBefore dims degs n),
      map (\<lambda>j. numberFrom (length (triplesBefore dims degs j)) (groupTriples (dims ! j) (degs ! j)))
        [0..<n])"
proof (induction n)
  case 0
  show ?case by (simp add: triplesBefore_def)
next
  case (Suc n)
  let ?G = "map (\<lambda>j. numberFrom (length (triplesBefore dims degs j))
                (groupTriples (dims ! j) (degs ! j))) [0..<n]"
  have len: "n < length (?G @ [[]])" by simp
  have upd: "(?G @ [[]])[n := (?G @ [[]]) ! n @ xs] = ?G @ [xs]" for xs
    by (simp add: nth_append list_update_append)
  show ?case
    unfolding upt_Suc_append [OF le0] foldl_append Suc.IH
    by (simp only: foldl_Cons foldl_Nil prod.case loop_s [OF len] upd triplesBefore_Suc
        length_append map_append list.map)
qed

lemma constraintIndexTuples_loop_eq:
  "constraintIndexTuples_loop dims degs =
     (length (triplesBefore dims degs (length dims)),
      map (\<lambda>j. numberFrom (length (triplesBefore dims degs j)) (groupTriples (dims ! j) (degs ! j)))
        [0..<length dims])"
  unfolding constraintIndexTuples_loop_def by (rule loop_j)

lemma constraintIndexTuples_eq:
  "constraintIndexTuples dims degs =
     map (\<lambda>j. numberFrom (length (triplesBefore dims degs j)) (groupTriples (dims ! j) (degs ! j)))
        [0..<length dims]"
  by (simp add: constraintIndexTuples_def constraintIndexTuples_loop_eq)

lemma concat_groups:
  "concat (map (\<lambda>j. numberFrom (length (triplesBefore dims degs j))
       (groupTriples (dims ! j) (degs ! j))) [0..<n])
   = numberFrom 0 (triplesBefore dims degs n)"
  by (induction n) (simp_all add: triplesBefore_Suc numberFrom_append, simp add: triplesBefore_def)

lemma length_constraintIndexTuples [simp]:
  "length (constraintIndexTuples dims degs) = length dims"
  by (simp add: constraintIndexTuples_eq)

lemma nth_constraintIndexTuples:
  "j < length dims \<Longrightarrow> constraintIndexTuples dims degs ! j =
     numberFrom (length (triplesBefore dims degs j)) (groupTriples (dims ! j) (degs ! j))"
  by (simp add: constraintIndexTuples_eq)

lemma concat_constraintIndexTuples:
  "concat (constraintIndexTuples dims degs) = numberFrom 0 (triplesBefore dims degs (length dims))"
  by (simp add: constraintIndexTuples_eq concat_groups)

lemma in_groupTriples:
  "(r, s, k) \<in> set (groupTriples d e) \<longleftrightarrow> r \<le> s \<and> int s < d \<and> int k \<le> e"
proof -
  have "(r, s, k) \<in> set (groupTriples d e) \<longleftrightarrow> s < nat d \<and> r < Suc s \<and> k < nat (e + 1)"
    unfolding groupTriples_def by (fastforce simp del: upt_Suc)
  also have "\<dots> \<longleftrightarrow> r \<le> s \<and> int s < d \<and> int k \<le> e"
    by linarith
  finally show ?thesis .
qed

lemma set_groupTriples:
  "set (groupTriples d e) = {(r, s, k). r \<le> s \<and> int s < d \<and> int k \<le> e}"
  using in_groupTriples by auto

lemma sorted_wrt_concat_upt:
  assumes "\<And>i. i < n \<Longrightarrow> sorted_wrt P (f i)"
    and "\<And>i j x y. i < j \<Longrightarrow> j < n \<Longrightarrow> x \<in> set (f i) \<Longrightarrow> y \<in> set (f j) \<Longrightarrow> P x y"
  shows "sorted_wrt P (concat (map f [0..<n]))"
  using assms
proof (induction n)
  case 0
  show ?case by simp
next
  case (Suc n)
  have "sorted_wrt P (concat (map f [0..<n]))"
    by (rule Suc.IH) (simp_all add: Suc.prems)
  moreover have "sorted_wrt P (f n)"
    by (simp add: Suc.prems)
  moreover have "\<forall>x \<in> set (concat (map f [0..<n])). \<forall>y \<in> set (f n). P x y"
    using Suc.prems(2) by auto
  ultimately show ?case
    by (simp add: sorted_wrt_append)
qed

lemma sorted_groupTriples: "sorted_wrt triple_less (groupTriples d e)"
  unfolding groupTriples_def
proof (rule sorted_wrt_concat_upt)
  fix s
  show "sorted_wrt triple_less
          (concat (map (\<lambda>r. map (\<lambda>k. (r, s, k)) [0..<nat (e + 1)]) [0..<s + 1]))"
  proof (rule sorted_wrt_concat_upt)
    fix r
    have "sorted_wrt (\<lambda>k k'. triple_less (r, s, k) (r, s, k')) [0..<nat (e + 1)]"
      by (rule sorted_wrt_mono_rel [of _ "(<)"]) (simp_all add: triple_less_def)
    then show "sorted_wrt triple_less (map (\<lambda>k. (r, s, k)) [0..<nat (e + 1)])"
      by (simp add: sorted_wrt_map)
  next
    fix i j :: nat and x y
    assume "i < j" "x \<in> set (map (\<lambda>k. (i, s, k)) [0..<nat (e + 1)])"
      "y \<in> set (map (\<lambda>k. (j, s, k)) [0..<nat (e + 1)])"
    then show "triple_less x y"
      by (auto simp: triple_less_def)
  qed
next
  fix i j :: nat and x y
  assume "i < j"
    "x \<in> set (concat (map (\<lambda>r. map (\<lambda>k. (r, i, k)) [0..<nat (e + 1)]) [0..<i + 1]))"
    "y \<in> set (concat (map (\<lambda>r. map (\<lambda>k. (r, j, k)) [0..<nat (e + 1)]) [0..<j + 1]))"
  then show "triple_less x y"
    by (auto simp: triple_less_def)
qed

lemma triple_less_irrefl: "\<not> triple_less x x"
  by (auto simp: triple_less_def split: prod.splits)

lemma triple_less_asym: "triple_less x y \<Longrightarrow> \<not> triple_less y x"
  by (auto simp: triple_less_def split: prod.splits)

lemma sorted_nth_less_iff:
  assumes "sorted_wrt triple_less xs" "i < length xs" "i' < length xs"
  shows "triple_less (xs ! i) (xs ! i') \<longleftrightarrow> i < i'"
proof (cases i i' rule: linorder_cases)
  case less
  with assms show ?thesis by (simp add: sorted_wrt_nth_less)
next
  case equal
  then show ?thesis by (simp add: triple_less_irrefl)
next
  case greater
  with assms have "triple_less (xs ! i') (xs ! i)" by (simp add: sorted_wrt_nth_less)
  with greater show ?thesis by (auto dest: triple_less_asym)
qed

lemma distinct_groupTriples: "distinct (groupTriples d e)"
proof -
  have "xs ! i \<noteq> xs ! j" if "sorted_wrt triple_less xs" "i < j" "j < length xs" for xs i j
    using that sorted_wrt_nth_less [of triple_less xs i j] by (auto simp: triple_less_irrefl)
  then show ?thesis
    using sorted_groupTriples [of d e]
    by (metis distinct_conv_nth linorder_neqE_nat)
qed

lemma lex_srk_numberFrom:
  assumes "i < length xs" "i' < length xs"
  shows "lex_srk (numberFrom p xs ! i) (numberFrom q xs ! i') \<longleftrightarrow> triple_less (xs ! i) (xs ! i')"
  using assms by (simp add: nth_numberFrom lex_srk_def triple_less_def split: prod.splits)

lemma length_triplesBefore_mono:
  "j \<le> j' \<Longrightarrow> length (triplesBefore dims degs j) \<le> length (triplesBefore dims degs j')"
  by (induction j' rule: nat_induct_at_least) (simp_all add: triplesBefore_Suc)

lemma in_set_numberFrom:
  "t \<in> set (numberFrom p xs) \<longleftrightarrow> (\<exists>i < length xs. t = numberFrom p xs ! i)"
  by (metis in_set_conv_nth length_numberFrom)

lemma tuple_position:
  assumes "j < length dims" "t \<in> set (constraintIndexTuples dims degs ! j)"
  obtains i where "i < length (groupTriples (dims ! j) (degs ! j))"
    and "t = numberFrom (length (triplesBefore dims degs j)) (groupTriples (dims ! j) (degs ! j)) ! i"
  using assms unfolding nth_constraintIndexTuples [OF assms(1)] in_set_numberFrom by blast

lemma it_p_order:
  assumes j: "j < length dims" and j': "j' < length dims"
    and t: "t \<in> set (constraintIndexTuples dims degs ! j)"
    and t': "t' \<in> set (constraintIndexTuples dims degs ! j')"
  shows "it_p t < it_p t' \<longleftrightarrow> lex_jsrk (j, t) (j', t')"
proof -
  let ?tr = "\<lambda>j. groupTriples (dims ! j) (degs ! j)"
  let ?off = "\<lambda>j. length (triplesBefore dims degs j)"
  from j t obtain i where i: "i < length (?tr j)" "t = numberFrom (?off j) (?tr j) ! i"
    by (rule tuple_position)
  from j' t' obtain i' where i': "i' < length (?tr j')" "t' = numberFrom (?off j') (?tr j') ! i'"
    by (rule tuple_position)
  have p: "it_p t = ?off j + i" "it_p t' = ?off j' + i'"
    using i i' by (simp_all add: nth_numberFrom)
  show ?thesis
  proof (cases j j' rule: linorder_cases)
    case less
    then have "?off (Suc j) \<le> ?off j'"
      by (intro length_triplesBefore_mono) simp
    with i p less show ?thesis
      by (simp add: lex_jsrk_def triplesBefore_Suc)
  next
    case equal
    with i i' p show ?thesis
      using sorted_groupTriples [of "dims ! j" "degs ! j"]
      by (simp add: lex_jsrk_def lex_srk_numberFrom sorted_nth_less_iff)
  next
    case greater
    then have "?off (Suc j') \<le> ?off j"
      by (intro length_triplesBefore_mono) simp
    with i' p greater show ?thesis
      by (simp add: lex_jsrk_def triplesBefore_Suc)
  qed
qed

lemma it_p_inj:
  assumes j: "j < length dims" and j': "j' < length dims"
    and t: "t \<in> set (constraintIndexTuples dims degs ! j)"
    and t': "t' \<in> set (constraintIndexTuples dims degs ! j')"
    and eq: "it_p t = it_p t'"
  shows "j = j' \<and> t = t'"
proof -
  from it_p_order [OF j j' t t'] it_p_order [OF j' j t' t] eq
  have "\<not> lex_jsrk (j, t) (j', t')" "\<not> lex_jsrk (j', t') (j, t)"
    by simp_all
  then have "j = j' \<and> it_s t = it_s t' \<and> it_r t = it_r t' \<and> it_k t = it_k t'"
    unfolding lex_jsrk_def lex_srk_def fst_conv snd_conv by (metis linorder_neqE_nat)
  with eq show ?thesis by simp
qed

lemma it_p_less_total:
  assumes j: "j < length dims" and t: "t \<in> set (constraintIndexTuples dims degs ! j)"
  shows "it_p t < length (concat (constraintIndexTuples dims degs))"
proof -
  let ?tr = "\<lambda>j. groupTriples (dims ! j) (degs ! j)"
  let ?off = "\<lambda>j. length (triplesBefore dims degs j)"
  from j t obtain i where i: "i < length (?tr j)" "t = numberFrom (?off j) (?tr j) ! i"
    by (rule tuple_position)
  have "it_p t < ?off (Suc j)"
    using i by (simp add: nth_numberFrom triplesBefore_Suc)
  also have "\<dots> \<le> ?off (length dims)"
    using j by (intro length_triplesBefore_mono) simp
  finally show ?thesis
    by (simp add: concat_constraintIndexTuples)
qed

lemma group_sorted_by_p:
  assumes "j < length dims"
  shows "sorted_wrt (\<lambda>t t'. it_p t < it_p t') (constraintIndexTuples dims degs ! j)"
proof -
  have "sorted_wrt (<) (map it_p (constraintIndexTuples dims degs ! j))"
    by (simp add: nth_constraintIndexTuples [OF assms] map_it_p_numberFrom)
  then show ?thesis
    by (simp add: sorted_wrt_map)
qed

text \<open>
  C8. The index tuples the solver generates satisfy the invariant of \<open>IndexTuple\<close>:
  group \<open>j\<close> holds exactly the tuples with \<open>0 \<le> r \<le> s < dimensions[j]\<close> and
  \<open>0 \<le> k \<le> degrees[j]\<close>, each once and in increasing \<open>(s, r, k)\<close> order; along the
  whole enumeration \<open>p\<close> takes the values \<open>0, 1, 2, ...\<close> in turn; and \<open>p\<close> is smaller
  exactly when \<open>(j, s, r, k)\<close> is lexicographically smaller. The variant of \<open>SDP.h\<close>
  returns the same tuples, after asserting that the final \<open>p\<close> is the length of
  \<open>primalObjective\<close>. The code reads \<open>degrees[j]\<close> for every \<open>j\<close> below
  \<open>dimensions.size()\<close>, hence the hypothesis on the lengths.
\<close>

theorem constraintIndexTuples_invariant:
  assumes "length degs = length dims"
  shows "length (constraintIndexTuples dims degs) = length dims \<and>
    (\<forall>j < length dims.
       (\<lambda>t. (it_r t, it_s t, it_k t)) ` set (constraintIndexTuples dims degs ! j)
         = {(r, s, k). r \<le> s \<and> int s < dims ! j \<and> int k \<le> degs ! j} \<and>
       distinct (map (\<lambda>t. (it_r t, it_s t, it_k t)) (constraintIndexTuples dims degs ! j)) \<and>
       sorted_wrt lex_srk (constraintIndexTuples dims degs ! j)) \<and>
    map it_p (concat (constraintIndexTuples dims degs))
      = [0..<length (concat (constraintIndexTuples dims degs))] \<and>
    (\<forall>j j' t t'. j < length dims \<longrightarrow> j' < length dims \<longrightarrow>
       t \<in> set (constraintIndexTuples dims degs ! j) \<longrightarrow>
       t' \<in> set (constraintIndexTuples dims degs ! j') \<longrightarrow>
       (it_p t < it_p t' \<longleftrightarrow> lex_jsrk (j, t) (j', t'))) \<and>
    initializeConstraintIndices dims degs primalObjective
      = (if length (concat (constraintIndexTuples dims degs)) = length primalObjective
         then Inr (constraintIndexTuples dims degs) else Inl AssertionFailed)"
proof -
  let ?G = "constraintIndexTuples dims degs"
  let ?tr = "\<lambda>j. groupTriples (dims ! j) (degs ! j)"
  let ?off = "\<lambda>j. length (triplesBefore dims degs j)"
  have G: "?G ! j = numberFrom (?off j) (?tr j)" if "j < length dims" for j
    using that by (rule nth_constraintIndexTuples)
  have group: "(\<lambda>t. (it_r t, it_s t, it_k t)) ` set (?G ! j)
         = {(r, s, k). r \<le> s \<and> int s < dims ! j \<and> int k \<le> degs ! j} \<and>
       distinct (map (\<lambda>t. (it_r t, it_s t, it_k t)) (?G ! j)) \<and>
       sorted_wrt lex_srk (?G ! j)" if j: "j < length dims" for j
  proof -
    have "(\<lambda>t. (it_r t, it_s t, it_k t)) ` set (?G ! j) = set (?tr j)"
      unfolding G [OF j] set_map [symmetric] map_rsk_numberFrom ..
    moreover have "sorted_wrt lex_srk (numberFrom (?off j) (?tr j))"
      unfolding sorted_wrt_iff_nth_less
      using sorted_groupTriples [of "dims ! j" "degs ! j"]
      by (simp add: lex_srk_numberFrom sorted_wrt_nth_less)
    ultimately show ?thesis
      by (simp add: G [OF j] map_rsk_numberFrom distinct_groupTriples set_groupTriples)
  qed
  have ps: "map it_p (concat ?G) = [0..<length (concat ?G)]"
    by (simp add: concat_constraintIndexTuples map_it_p_numberFrom)
  have order: "it_p t < it_p t' \<longleftrightarrow> lex_jsrk (j, t) (j', t')"
    if "j < length dims" "j' < length dims" "t \<in> set (?G ! j)" "t' \<in> set (?G ! j')" for j j' t t'
    using that by (rule it_p_order)
  have init: "initializeConstraintIndices dims degs primalObjective
      = (if length (concat ?G) = length primalObjective then Inr ?G else Inl AssertionFailed)"
    unfolding concat_constraintIndexTuples
    by (simp add: initializeConstraintIndices_def constraintIndexTuples_loop_eq
        constraintIndexTuples_eq)
  from group ps order init show ?thesis
    by simp
qed

lemma constraintIndexTuples_example:
  "constraintIndexTuples [2, 1] [1, 0] =
     [[\<lparr>it_p = 0, it_r = 0, it_s = 0, it_k = 0\<rparr>, \<lparr>it_p = 1, it_r = 0, it_s = 0, it_k = 1\<rparr>,
       \<lparr>it_p = 2, it_r = 0, it_s = 1, it_k = 0\<rparr>, \<lparr>it_p = 3, it_r = 0, it_s = 1, it_k = 1\<rparr>,
       \<lparr>it_p = 4, it_r = 1, it_s = 1, it_k = 0\<rparr>, \<lparr>it_p = 5, it_r = 1, it_s = 1, it_k = 1\<rparr>],
      [\<lparr>it_p = 6, it_r = 0, it_s = 0, it_k = 0\<rparr>]]"
  by (simp add: constraintIndexTuples_def constraintIndexTuples_loop_def upt_rec)

theorem constraintIndexTuples_invariant_witness:
  "length [1, 0 :: int] = length [2, 1 :: int] \<and>
   length (constraintIndexTuples [2, 1] [1, 0]) = 2 \<and>
   map it_p (concat (constraintIndexTuples [2, 1] [1, 0])) = [0, 1, 2, 3, 4, 5, 6] \<and>
   sorted_wrt lex_srk (constraintIndexTuples [2, 1] [1, 0] ! 0) \<and>
   initializeConstraintIndices [2, 1] [1, 0] [0, 0, 0, 0, 0, 0, 0]
     = Inr (constraintIndexTuples [2, 1] [1, 0]) \<and>
   initializeConstraintIndices [2, 1] [1, 0] [0, 0, 0] = Inl AssertionFailed"
proof -
  have h: "length [1, 0 :: int] = length [2, 1 :: int]" by simp
  have n: "length (concat (constraintIndexTuples [2, 1] [1, 0])) = 7"
    by (simp add: constraintIndexTuples_example)
  have u: "[0..<7] = [0, 1, 2, 3, 4, 5, 6]"
    by (simp add: upt_rec)
  show ?thesis
    using constraintIndexTuples_invariant [OF h, of "[0, 0, 0, 0, 0, 0, 0]"]
      constraintIndexTuples_invariant [OF h, of "[0, 0, 0]"]
    by (simp add: n u)
qed

section \<open>The symmetric Frobenius product\<close>

lemma foldl_upper_sum:
  "foldl (\<lambda>result c. foldl (\<lambda>result r. result + f r c) result [0..<c]) (a::real) [0..<n]
     = a + (\<Sum>c<n. \<Sum>r<c. f r c)"
  by (induction n) (simp_all add: foldl_plus_sum)

lemma frobeniusProductSymmetric_Matrix_spec:
  assumes "rows A = rows B" "cols A = cols B" "rows A = cols A"
  shows "frobeniusProductSymmetric_Matrix A B = Inr (spec_frobenius_sym_Matrix A B)"
  using assms
  by (simp add: frobeniusProductSymmetric_Matrix_def spec_frobenius_sym_Matrix_def
      foldl_upper_sum foldl_plus_sum)

lemma Matrix_get_spec_sum:
  assumes "rows dA = rows A" "r + c * rows A < length (elements A)"
  shows "Matrix_get (spec_sum_Matrix A dA) r c = Matrix_get A r c + Matrix_get dA r c"
  using assms by (simp add: Matrix_get_def spec_sum_Matrix_def)

lemma frobeniusProductOfSums_Matrix_spec:
  assumes A: "Matrix_wf A" "rows A = cols A"
    and dA: "rows dA = rows A"
    and B: "Matrix_wf B" "rows B = rows A" "cols B = cols A"
    and dB: "rows dB = rows A"
  shows "frobeniusProductOfSums_Matrix A dA B dB
           = spec_frobenius_sym_Matrix (spec_sum_Matrix A dA) (spec_sum_Matrix B dB)"
proof -
  let ?n = "cols A"
  have rA: "rows A = ?n" by (fact A(2))
  have lenA: "length (elements A) = ?n * ?n" and lenB: "length (elements B) = ?n * ?n"
    using A B by (simp_all add: Matrix_wf_def)
  note dA = dA [unfolded rA] and dB = dB [unfolded rA]
  have getA: "Matrix_get (spec_sum_Matrix A dA) r c = Matrix_get A r c + Matrix_get dA r c"
    if "r < ?n" "c < ?n" for r c
    using that dA rA by (intro Matrix_get_spec_sum) (simp_all add: lenA index_less)
  have getB: "Matrix_get (spec_sum_Matrix B dB) r c = Matrix_get B r c + Matrix_get dB r c"
    if "r < ?n" "c < ?n" for r c
    using that dB B rA by (intro Matrix_get_spec_sum) (simp_all add: lenB index_less)
  have shape: "rows (spec_sum_Matrix A dA) = ?n" "cols (spec_sum_Matrix A dA) = ?n"
    using A by (simp_all add: spec_sum_Matrix_def)
  have upper: "(\<Sum>c<?n. \<Sum>r<c. Matrix_get (spec_sum_Matrix A dA) r c * Matrix_get (spec_sum_Matrix B dB) r c)
      = (\<Sum>c<?n. \<Sum>r<c. (Matrix_get A r c + Matrix_get dA r c) * (Matrix_get B r c + Matrix_get dB r c))"
  proof (intro sum.cong refl)
    fix c r assume "c \<in> {..<?n}" "r \<in> {..<c}"
    then have "r < ?n" "c < ?n" by simp_all
    then show "Matrix_get (spec_sum_Matrix A dA) r c * Matrix_get (spec_sum_Matrix B dB) r c
      = (Matrix_get A r c + Matrix_get dA r c) * (Matrix_get B r c + Matrix_get dB r c)"
      by (simp add: getA getB)
  qed
  have diag: "(\<Sum>r<?n. Matrix_get (spec_sum_Matrix A dA) r r * Matrix_get (spec_sum_Matrix B dB) r r)
      = (\<Sum>r<?n. (Matrix_get A r r + Matrix_get dA r r) * (Matrix_get B r r + Matrix_get dB r r))"
    by (intro sum.cong refl) (simp add: getA getB)
  show ?thesis
    unfolding frobeniusProductOfSums_Matrix_def spec_frobenius_sym_Matrix_def shape upper diag
    by (simp add: rA foldl_upper_sum foldl_plus_sum)
qed

lemma sameShape_blocks:
  assumes "sameShape A B" "b < length (blocks_BDM B)"
  shows "length (blocks_BDM A) = length (blocks_BDM B)"
    and "rows (blocks_BDM A ! b) = rows (blocks_BDM B ! b)"
    and "cols (blocks_BDM A ! b) = cols (blocks_BDM B ! b)"
proof -
  from assms(1) have r: "map rows (blocks_BDM A) = map rows (blocks_BDM B)"
    and c: "map cols (blocks_BDM A) = map cols (blocks_BDM B)"
    by (simp_all add: sameShape_def)
  from r show len: "length (blocks_BDM A) = length (blocks_BDM B)"
    by (rule map_eq_imp_length_eq)
  from r len assms(2) show "rows (blocks_BDM A ! b) = rows (blocks_BDM B ! b)"
    by (metis nth_map)
  from c len assms(2) show "cols (blocks_BDM A ! b) = cols (blocks_BDM B ! b)"
    by (metis nth_map)
qed

lemma frobeniusProductSymmetric_spec:
  assumes "BlockDiagonalMatrix_wf A" "sameShape B A"
  shows "frobeniusProductSymmetric A B = Inr (spec_frobenius_sym A B)"
proof -
  let ?n = "length (blocks_BDM A)"
  have block: "frobeniusProductSymmetric_Matrix (blocks_BDM A ! b) (blocks_BDM B ! b)
      = Inr (spec_frobenius_sym_Matrix (blocks_BDM A ! b) (blocks_BDM B ! b))" if b: "b < ?n" for b
  proof (rule frobeniusProductSymmetric_Matrix_spec)
    from sameShape_blocks [OF assms(2) b]
    show "rows (blocks_BDM A ! b) = rows (blocks_BDM B ! b)"
      "cols (blocks_BDM A ! b) = cols (blocks_BDM B ! b)"
      by simp_all
    from assms(1) b show "rows (blocks_BDM A ! b) = cols (blocks_BDM A ! b)"
      by (simp add: BlockDiagonalMatrix_wf_def list_all_length)
  qed
  have "frobeniusProductSymmetric A B
      = Inr (foldl (\<lambda>result b.
           result + spec_frobenius_sym_Matrix (blocks_BDM A ! b) (blocks_BDM B ! b))
          (dotProduct (diagonalPart A) (diagonalPart B)) [0..<?n])"
    unfolding frobeniusProductSymmetric_def
    by (rule foldl_err_Inr) (simp add: block)
  then show ?thesis
    by (simp add: foldl_plus_sum dotProduct_def spec_frobenius_sym_def)
qed

lemma frobeniusProductOfSums_spec:
  assumes "BlockDiagonalMatrix_wf X" "BlockDiagonalMatrix_wf Y"
    and "sameShape dX X" "sameShape Y X" "sameShape dY X"
  shows "frobeniusProductOfSums X dX Y dY = frobenius_product_of_sums X dX Y dY"
proof -
  let ?n = "length (blocks_BDM X)"
  have lenY: "length (blocks_BDM Y) = ?n" and diagY: "length (diagonalPart Y) = length (diagonalPart X)"
    using assms(4) by (auto simp: sameShape_def dest: map_eq_imp_length_eq)
  have block: "frobeniusProductOfSums_Matrix (blocks_BDM X ! b) (blocks_BDM dX ! b)
              (blocks_BDM Y ! b) (blocks_BDM dY ! b)
      = spec_frobenius_sym_Matrix (spec_sum_Matrix (blocks_BDM X ! b) (blocks_BDM dX ! b))
          (spec_sum_Matrix (blocks_BDM Y ! b) (blocks_BDM dY ! b))" if b: "b < ?n" for b
  proof (rule frobeniusProductOfSums_Matrix_spec)
    from assms(1) b show "Matrix_wf (blocks_BDM X ! b)" "rows (blocks_BDM X ! b) = cols (blocks_BDM X ! b)"
      by (simp_all add: BlockDiagonalMatrix_wf_def list_all_length)
    from assms(2) b lenY show "Matrix_wf (blocks_BDM Y ! b)"
      by (simp add: BlockDiagonalMatrix_wf_def list_all_length)
    from sameShape_blocks [OF assms(3) b] show "rows (blocks_BDM dX ! b) = rows (blocks_BDM X ! b)"
      by simp
    from sameShape_blocks [OF assms(4) b]
    show "rows (blocks_BDM Y ! b) = rows (blocks_BDM X ! b)"
      "cols (blocks_BDM Y ! b) = cols (blocks_BDM X ! b)"
      by simp_all
    from sameShape_blocks [OF assms(5) b] show "rows (blocks_BDM dY ! b) = rows (blocks_BDM X ! b)"
      by simp
  qed
  show ?thesis
    by (simp add: frobeniusProductOfSums_def frobenius_product_of_sums_def spec_frobenius_sym_def
        spec_sum_def foldl_plus_sum block lenY diagY)
qed

section \<open>Properties of the largest absolute value\<close>

lemma max_if: "(if \<bar>e::real\<bar> > m then \<bar>e\<bar> else m) = max m \<bar>e\<bar>"
  by (simp add: max_def)

lemma maxAbs_foldl:
  "foldl (\<lambda>max e. if \<bar>e\<bar> > max then \<bar>e\<bar> else max) (m :: real) v = Max (insert m (abs ` set v))"
proof (induction v arbitrary: m)
  case Nil
  show ?case by simp
next
  case (Cons e v)
  have "Max (insert (max m \<bar>e\<bar>) (abs ` set v)) = Max (insert m (insert \<bar>e\<bar> (abs ` set v)))"
    by (cases "v = []") (simp_all add: max.assoc)
  with Cons [of "max m \<bar>e\<bar>"] show ?case
    by (simp add: max_if)
qed

lemma maxAbsVectorElement_nonempty:
  assumes "v \<noteq> []"
  shows "maxAbsVectorElement v = Inr (Max (abs ` set v))"
proof -
  from assms have "\<bar>v ! 0\<bar> \<in> abs ` set v"
    by (cases v) simp_all
  then have "insert \<bar>v ! 0\<bar> (abs ` set v) = abs ` set v"
    by blast
  with assms show ?thesis
    by (simp add: maxAbsVectorElement_def maxAbs_foldl)
qed

lemma Max_insert_Un:
  assumes "finite B" "B \<noteq> {}" "finite R"
  shows "Max (insert (max (m::real) (Max B)) R) = Max (insert m (B \<union> R))"
proof -
  have "Max (insert m (B \<union> R)) = Max (insert m B \<union> R)" by simp
  show ?thesis
  proof (cases "R = {}")
    case True
    then show ?thesis using assms by simp
  next
    case False
    have "Max (insert m (B \<union> R)) = Max (insert m B \<union> R)" by simp
    also have "\<dots> = max (Max (insert m B)) (Max R)"
      using assms False by (intro Max_Un) simp_all
    also have "\<dots> = max (max m (Max B)) (Max R)"
      using assms by simp
    also have "\<dots> = Max (insert (max m (Max B)) R)"
      using assms False by simp
    finally show ?thesis by simp
  qed
qed

lemma foldl_err_max_blocks:
  assumes "\<forall>b \<in> set bs. elements b \<noteq> []"
  shows "foldl_err (\<lambda>max b. case Matrix_maxAbsElement b of Inl e \<Rightarrow> Inl e
            | Inr tmp \<Rightarrow> Inr (if tmp > max then tmp else max)) m bs
         = Inr (Max (insert m (abs ` (\<Union>b \<in> set bs. set (elements b)))))"
  using assms
proof (induction bs arbitrary: m)
  case Nil
  show ?case by simp
next
  case (Cons b bs)
  let ?B = "abs ` set (elements b)"
  let ?R = "abs ` (\<Union>b \<in> set bs. set (elements b))"
  from Cons.prems have ne: "elements b \<noteq> []" and rest: "\<forall>b \<in> set bs. elements b \<noteq> []"
    by simp_all
  have "Max (insert (max m (Max ?B)) ?R) = Max (insert m (?B \<union> ?R))"
    using ne by (intro Max_insert_Un) simp_all
  moreover have "abs ` (\<Union>b \<in> set (b # bs). set (elements b)) = ?B \<union> ?R"
    by auto
  moreover have "(if Max ?B > m then Max ?B else m) = max m (Max ?B)"
    by (simp add: max_def)
  ultimately show ?case
    using ne Cons.IH [OF rest, of "max m (Max ?B)"]
    by (simp add: Matrix_maxAbsElement_def maxAbsVectorElement_nonempty)
qed

lemma storedEntries_Max:
  assumes d: "diagonalPart A \<noteq> []"
  shows "Max (insert (Max (abs ` set (diagonalPart A)))
            (abs ` (\<Union>b \<in> set (blocks_BDM A). set (elements b)))) = Max (abs ` storedEntries A)"
proof -
  let ?D = "abs ` set (diagonalPart A)"
  let ?R = "abs ` (\<Union>b \<in> set (blocks_BDM A). set (elements b))"
  have "Max (insert (max (Max ?D) (Max ?D)) ?R) = Max (insert (Max ?D) (?D \<union> ?R))"
    using d by (intro Max_insert_Un) simp_all
  moreover have "Max ?D \<in> ?D" using d by (intro Max_in) simp_all
  then have "insert (Max ?D) (?D \<union> ?R) = ?D \<union> ?R" by blast
  moreover have "abs ` storedEntries A = ?D \<union> ?R"
    by (auto simp: storedEntries_def)
  ultimately show ?thesis by simp
qed

lemma foldl_err_max_blocks_fails:
  assumes "\<exists>b \<in> set bs. elements b = []"
  shows "foldl_err (\<lambda>max b. case Matrix_maxAbsElement b of Inl e \<Rightarrow> Inl e
            | Inr tmp \<Rightarrow> Inr (if tmp > max then tmp else max)) m bs
         = Inl OutOfRange"
  using assms
proof (induction bs arbitrary: m)
  case Nil
  then show ?case by simp
next
  case (Cons b bs)
  show ?case
  proof (cases "elements b = []")
    case True
    then show ?thesis
      by (simp add: Matrix_maxAbsElement_def maxAbsVectorElement_def)
  next
    case False
    with Cons.prems have "\<exists>b \<in> set bs. elements b = []" by simp
    from Cons.IH [OF this] False show ?thesis
      by (simp add: Matrix_maxAbsElement_def maxAbsVectorElement_def)
  qed
qed

text \<open>
  C10. \<open>maxAbsVectorElement\<close> reads element 0 of its argument whatever its length, so
  it fails (a read outside the buffer) exactly on the empty vector, and on a non-empty
  vector it returns the largest \<open>|v[i]|\<close>. Hence \<open>Matrix::maxAbsElement\<close> is defined
  exactly when the element buffer is non-empty, and
  \<open>BlockDiagonalMatrix::maxAbsElement\<close> exactly when the diagonal prefix and the buffer
  of every block are non-empty; it then returns the largest absolute value over all
  stored entries.
\<close>

theorem maxAbsElement_precondition:
  "(maxAbsVectorElement v = Inl OutOfRange \<longleftrightarrow> v = []) \<and>
   (v \<noteq> [] \<longrightarrow> maxAbsVectorElement v = Inr (Max (abs ` set v))) \<and>
   (Matrix_maxAbsElement M = Inl OutOfRange \<longleftrightarrow> elements M = []) \<and>
   (elements M \<noteq> [] \<longrightarrow> Matrix_maxAbsElement M = Inr (Max (abs ` set (elements M)))) \<and>
   (BlockDiagonalMatrix_maxAbsElement A = Inl OutOfRange \<longleftrightarrow>
      diagonalPart A = [] \<or> (\<exists>b \<in> set (blocks_BDM A). elements b = [])) \<and>
   (diagonalPart A \<noteq> [] \<and> (\<forall>b \<in> set (blocks_BDM A). elements b \<noteq> []) \<longrightarrow>
      BlockDiagonalMatrix_maxAbsElement A = Inr (Max (abs ` storedEntries A)))"
proof -
  have v1: "maxAbsVectorElement v = Inl OutOfRange \<longleftrightarrow> v = []" for v
    by (simp add: maxAbsVectorElement_def)
  have v2: "v \<noteq> [] \<longrightarrow> maxAbsVectorElement v = Inr (Max (abs ` set v))" for v
    by (simp add: maxAbsVectorElement_nonempty)
  have b2: "BlockDiagonalMatrix_maxAbsElement A = Inr (Max (abs ` storedEntries A))"
    if d: "diagonalPart A \<noteq> []" and bs: "\<forall>b \<in> set (blocks_BDM A). elements b \<noteq> []"
    using d foldl_err_max_blocks [OF bs] storedEntries_Max [OF d]
    by (simp add: BlockDiagonalMatrix_maxAbsElement_def maxAbsVectorElement_nonempty)
  have b1: "BlockDiagonalMatrix_maxAbsElement A = Inl OutOfRange \<longleftrightarrow>
      diagonalPart A = [] \<or> (\<exists>b \<in> set (blocks_BDM A). elements b = [])"
  proof (cases "diagonalPart A = []")
    case True
    then show ?thesis
      by (simp add: BlockDiagonalMatrix_maxAbsElement_def maxAbsVectorElement_def)
  next
    case d: False
    show ?thesis
    proof (cases "\<exists>b \<in> set (blocks_BDM A). elements b = []")
      case True
      with d foldl_err_max_blocks_fails [OF True] show ?thesis
        by (simp add: BlockDiagonalMatrix_maxAbsElement_def maxAbsVectorElement_nonempty)
    next
      case False
      then have "\<forall>b \<in> set (blocks_BDM A). elements b \<noteq> []" by simp
      from b2 [OF d this] d False show ?thesis by simp
    qed
  qed
  show ?thesis
    using v1 v2 b1 b2 by (simp add: Matrix_maxAbsElement_def)
qed

theorem maxAbsElement_precondition_witness:
  "maxAbsVectorElement [1, - 3, 2] = Inr 3 \<and>
   maxAbsVectorElement [] = Inl OutOfRange \<and>
   Matrix_maxAbsElement \<lparr>rows = 1, cols = 2, elements = [- 5, 4]\<rparr> = Inr 5 \<and>
   Matrix_maxAbsElement (Matrix_new 0 0) = Inl OutOfRange \<and>
   BlockDiagonalMatrix_maxAbsElement
     \<lparr>dim_BDM = 3, diagonalPart = [1, - 3], blocks_BDM = [\<lparr>rows = 1, cols = 1, elements = [- 7]\<rparr>]\<rparr>
     = Inr 7 \<and>
   BlockDiagonalMatrix_maxAbsElement
     \<lparr>dim_BDM = 1, diagonalPart = [], blocks_BDM = [\<lparr>rows = 1, cols = 1, elements = [- 7]\<rparr>]\<rparr>
     = Inl OutOfRange"
  using maxAbsElement_precondition [of "[1, - 3, 2]" "\<lparr>rows = 1, cols = 2, elements = [- 5, 4]\<rparr>"
      "\<lparr>dim_BDM = 3, diagonalPart = [1, - 3], blocks_BDM = [\<lparr>rows = 1, cols = 1, elements = [- 7]\<rparr>]\<rparr>"]
    maxAbsElement_precondition [of "[]" "Matrix_new 0 0"
      "\<lparr>dim_BDM = 1, diagonalPart = [], blocks_BDM = [\<lparr>rows = 1, cols = 1, elements = [- 7]\<rparr>]\<rparr>"]
  by (simp add: storedEntries_def Matrix_new_def)

section \<open>The centering parameter\<close>

text \<open>
  C3 as stated fails on the pair of main.cpp that the solver calls: at a ratio
  \<open>r = 5/4\<close> of an infeasible iterate (\<open>feasErr = 1\<close>, not below \<open>epsilonBar\<close>), where
  the claim gives \<open>max(betaBar, r) = 5/4\<close>, \<open>correctorCenteringParameter\<close> applied to
  \<open>betaAuxiliary\<close> returns 1.
\<close>

theorem betaCorrector_capped_when_infeasible:
  "betaCorrector \<lparr>betaStar = 1 / 10, betaBar = 2 / 10, epsilonStar = 1 / 10 ^ 7, epsilonBar = 1 / 10 ^ 7\<rparr> 1
     \<lparr>dim_BDM = 3, diagonalPart = [1], blocks_BDM = [\<lparr>rows = 2, cols = 2, elements = [2, 1, 1, 2]\<rparr>]\<rparr>
     \<lparr>dim_BDM = 3, diagonalPart = [1 / 2], blocks_BDM = [\<lparr>rows = 2, cols = 2, elements = [0, 1, 1, 0]\<rparr>]\<rparr>
     \<lparr>dim_BDM = 3, diagonalPart = [1], blocks_BDM = [\<lparr>rows = 2, cols = 2, elements = [1, 1 / 2, 1 / 2, 1]\<rparr>]\<rparr>
     \<lparr>dim_BDM = 3, diagonalPart = [0], blocks_BDM = [\<lparr>rows = 2, cols = 2, elements = [0, 0, 0, 0]\<rparr>]\<rparr>
     = Inr 1 \<and>
   spec_frobenius_sym
     \<lparr>dim_BDM = 3, diagonalPart = [1], blocks_BDM = [\<lparr>rows = 2, cols = 2, elements = [2, 1, 1, 2]\<rparr>]\<rparr>
     \<lparr>dim_BDM = 3, diagonalPart = [1], blocks_BDM = [\<lparr>rows = 2, cols = 2, elements = [1, 1 / 2, 1 / 2, 1]\<rparr>]\<rparr>
     / 3 = 2 \<and>
   spec_centering
     (spec_frobenius_sym
        (spec_sum
           \<lparr>dim_BDM = 3, diagonalPart = [1], blocks_BDM = [\<lparr>rows = 2, cols = 2, elements = [2, 1, 1, 2]\<rparr>]\<rparr>
           \<lparr>dim_BDM = 3, diagonalPart = [1 / 2], blocks_BDM = [\<lparr>rows = 2, cols = 2, elements = [0, 1, 1, 0]\<rparr>]\<rparr>)
        (spec_sum
           \<lparr>dim_BDM = 3, diagonalPart = [1], blocks_BDM = [\<lparr>rows = 2, cols = 2, elements = [1, 1 / 2, 1 / 2, 1]\<rparr>]\<rparr>
           \<lparr>dim_BDM = 3, diagonalPart = [0], blocks_BDM = [\<lparr>rows = 2, cols = 2, elements = [0, 0, 0, 0]\<rparr>]\<rparr>)
      / (2 * 3))
     (1 / 10) (2 / 10) False = 5 / 4"
  by (simp add: betaCorrector_def betaAuxiliary_def correctorCenteringParameter_def maxReal_def
      frobeniusProductSymmetric_def frobeniusProductSymmetric_Matrix_def frobeniusProductOfSums_def
      frobeniusProductOfSums_Matrix_def dotProduct_def Matrix_get_def spec_centering_def
      spec_frobenius_sym_def spec_frobenius_sym_Matrix_def spec_sum_def spec_sum_Matrix_def
      upt_rec lessThan_nat_numeral lessThan_Suc Let_def power2_eq_square)

text \<open>
  C3 as amended. \<open>corrector_centering_parameter\<close> is as the claim states, where
  \<open>mu * X.dim\<close> is not zero: with \<open>r = <X+dX, Y+dY>_sym / (mu * X.dim)\<close> and \<open>beta = r\<^sup>2\<close> if
  \<open>r < 1\<close>, \<open>beta = r\<close> otherwise, it returns \<open>min(max(feasible_centering_parameter, beta), 1)\<close>
  when primal-dual feasible and \<open>max(infeasible_centering_parameter, beta)\<close>, without a cap,
  when not. The pair of main.cpp differs: for matrices of one shape with
  \<open><X,Y>_sym\<close> not zero, \<open>betaAuxiliary\<close> returns \<open>r\<^sup>2\<close> for every \<open>r\<close>, where
  \<open>r = <X+dX, Y+dY>_sym / <X,Y>_sym\<close>, and \<open>correctorCenteringParameter\<close> returns 1 whenever
  that square exceeds 1, feasible or not, and otherwise the larger of the square and
  \<open>betaStar\<close> (when \<open>feasibilityError < epsilonBar\<close>) or \<open>betaBar\<close> (when not).
\<close>

theorem centering_parameter_value:
  "(mu * real (dim_BDM X) \<noteq> 0 \<longrightarrow>
      corrector_centering_parameter parameters X dX Y dY mu feasible
        = Inr (spec_centering
                 (spec_frobenius_sym (spec_sum X dX) (spec_sum Y dY) / (mu * real (dim_BDM X)))
                 (feasible_centering_parameter parameters)
                 (infeasible_centering_parameter parameters) feasible)) \<and>
   (BlockDiagonalMatrix_wf X \<and> BlockDiagonalMatrix_wf Y \<and> sameShape dX X \<and> sameShape Y X \<and>
    sameShape dY X \<and> spec_frobenius_sym X Y \<noteq> 0 \<longrightarrow>
      betaAuxiliary X dX Y dY
        = Inr ((spec_frobenius_sym (spec_sum X dX) (spec_sum Y dY) / spec_frobenius_sym X Y)\<^sup>2) \<and>
      betaCorrector params feasErr X dX Y dY
        = Inr (if (spec_frobenius_sym (spec_sum X dX) (spec_sum Y dY) / spec_frobenius_sym X Y)\<^sup>2 > 1
               then 1
               else max (if feasErr < epsilonBar params then betaStar params else betaBar params)
                      ((spec_frobenius_sym (spec_sum X dX) (spec_sum Y dY) / spec_frobenius_sym X Y)\<^sup>2)))"
proof (intro conjI impI)
  assume "mu * real (dim_BDM X) \<noteq> 0"
  then show "corrector_centering_parameter parameters X dX Y dY mu feasible
        = Inr (spec_centering
                 (spec_frobenius_sym (spec_sum X dX) (spec_sum Y dY) / (mu * real (dim_BDM X)))
                 (feasible_centering_parameter parameters)
                 (infeasible_centering_parameter parameters) feasible)"
    by (simp add: corrector_centering_parameter_def frobenius_product_of_sums_def
        spec_centering_def Let_def power2_eq_square)
next
  assume h: "BlockDiagonalMatrix_wf X \<and> BlockDiagonalMatrix_wf Y \<and> sameShape dX X \<and> sameShape Y X \<and>
    sameShape dY X \<and> spec_frobenius_sym X Y \<noteq> 0"
  then have den: "frobeniusProductSymmetric X Y = Inr (spec_frobenius_sym X Y)"
    by (intro frobeniusProductSymmetric_spec) simp_all
  from h have num: "frobeniusProductOfSums X dX Y dY
      = spec_frobenius_sym (spec_sum X dX) (spec_sum Y dY)"
    by (simp add: frobeniusProductOfSums_spec frobenius_product_of_sums_def)
  from h show aux: "betaAuxiliary X dX Y dY
        = Inr ((spec_frobenius_sym (spec_sum X dX) (spec_sum Y dY) / spec_frobenius_sym X Y)\<^sup>2)"
    by (simp add: betaAuxiliary_def den num Let_def power2_eq_square)
  show "betaCorrector params feasErr X dX Y dY
        = Inr (if (spec_frobenius_sym (spec_sum X dX) (spec_sum Y dY) / spec_frobenius_sym X Y)\<^sup>2 > 1
               then 1
               else max (if feasErr < epsilonBar params then betaStar params else betaBar params)
                      ((spec_frobenius_sym (spec_sum X dX) (spec_sum Y dY) / spec_frobenius_sym X Y)\<^sup>2))"
    by (simp add: betaCorrector_def aux correctorCenteringParameter_def maxReal_def max_def)
qed

theorem centering_parameter_value_witness:
  "corrector_centering_parameter
     \<lparr>feasible_centering_parameter = 1 / 10, infeasible_centering_parameter = 3 / 10\<rparr>
     \<lparr>dim_BDM = 3, diagonalPart = [1], blocks_BDM = [\<lparr>rows = 2, cols = 2, elements = [2, 1, 1, 2]\<rparr>]\<rparr>
     \<lparr>dim_BDM = 3, diagonalPart = [1 / 2], blocks_BDM = [\<lparr>rows = 2, cols = 2, elements = [0, 1, 1, 0]\<rparr>]\<rparr>
     \<lparr>dim_BDM = 3, diagonalPart = [1], blocks_BDM = [\<lparr>rows = 2, cols = 2, elements = [1, 1 / 2, 1 / 2, 1]\<rparr>]\<rparr>
     \<lparr>dim_BDM = 3, diagonalPart = [0], blocks_BDM = [\<lparr>rows = 2, cols = 2, elements = [0, 0, 0, 0]\<rparr>]\<rparr>
     2 False = Inr (5 / 4) \<and>
   betaAuxiliary
     \<lparr>dim_BDM = 3, diagonalPart = [1], blocks_BDM = [\<lparr>rows = 2, cols = 2, elements = [2, 1, 1, 2]\<rparr>]\<rparr>
     \<lparr>dim_BDM = 3, diagonalPart = [1 / 2], blocks_BDM = [\<lparr>rows = 2, cols = 2, elements = [0, 1, 1, 0]\<rparr>]\<rparr>
     \<lparr>dim_BDM = 3, diagonalPart = [1], blocks_BDM = [\<lparr>rows = 2, cols = 2, elements = [1, 1 / 2, 1 / 2, 1]\<rparr>]\<rparr>
     \<lparr>dim_BDM = 3, diagonalPart = [0], blocks_BDM = [\<lparr>rows = 2, cols = 2, elements = [0, 0, 0, 0]\<rparr>]\<rparr>
     = Inr (25 / 16) \<and>
   betaCorrector
     \<lparr>betaStar = 1 / 10, betaBar = 2 / 10, epsilonStar = 1 / 10 ^ 7, epsilonBar = 1 / 10 ^ 7\<rparr> 0
     \<lparr>dim_BDM = 3, diagonalPart = [1], blocks_BDM = [\<lparr>rows = 2, cols = 2, elements = [2, 1, 1, 2]\<rparr>]\<rparr>
     \<lparr>dim_BDM = 3, diagonalPart = [1 / 2], blocks_BDM = [\<lparr>rows = 2, cols = 2, elements = [0, 1, 1, 0]\<rparr>]\<rparr>
     \<lparr>dim_BDM = 3, diagonalPart = [1], blocks_BDM = [\<lparr>rows = 2, cols = 2, elements = [1, 1 / 2, 1 / 2, 1]\<rparr>]\<rparr>
     \<lparr>dim_BDM = 3, diagonalPart = [0], blocks_BDM = [\<lparr>rows = 2, cols = 2, elements = [0, 0, 0, 0]\<rparr>]\<rparr>
     = Inr 1"
proof -
  let ?P = "\<lparr>feasible_centering_parameter = 1 / 10, infeasible_centering_parameter = 3 / 10\<rparr>"
  let ?Q = "\<lparr>betaStar = 1 / 10, betaBar = 2 / 10, epsilonStar = 1 / 10 ^ 7, epsilonBar = 1 / 10 ^ 7\<rparr>"
  let ?X = "\<lparr>dim_BDM = 3, diagonalPart = [1], blocks_BDM = [\<lparr>rows = 2, cols = 2, elements = [2, 1, 1, 2]\<rparr>]\<rparr>"
  let ?dX = "\<lparr>dim_BDM = 3, diagonalPart = [1 / 2], blocks_BDM = [\<lparr>rows = 2, cols = 2, elements = [0, 1, 1, 0]\<rparr>]\<rparr>"
  let ?Y = "\<lparr>dim_BDM = 3, diagonalPart = [1], blocks_BDM = [\<lparr>rows = 2, cols = 2, elements = [1, 1 / 2, 1 / 2, 1]\<rparr>]\<rparr>"
  let ?dY = "\<lparr>dim_BDM = 3, diagonalPart = [0], blocks_BDM = [\<lparr>rows = 2, cols = 2, elements = [0, 0, 0, 0]\<rparr>]\<rparr>"
  have shape: "BlockDiagonalMatrix_wf ?X" "BlockDiagonalMatrix_wf ?Y"
    "sameShape ?dX ?X" "sameShape ?Y ?X" "sameShape ?dY ?X"
    by (simp_all add: BlockDiagonalMatrix_wf_def Matrix_wf_def sameShape_def)
  have den: "spec_frobenius_sym ?X ?Y = 6"
    by (simp add: spec_frobenius_sym_def spec_frobenius_sym_Matrix_def Matrix_get_def
        lessThan_nat_numeral lessThan_Suc)
  have num: "spec_frobenius_sym (spec_sum ?X ?dX) (spec_sum ?Y ?dY) = 15 / 2"
    by (simp add: spec_frobenius_sym_def spec_frobenius_sym_Matrix_def spec_sum_def
        spec_sum_Matrix_def Matrix_get_def upt_rec lessThan_nat_numeral lessThan_Suc)
  from centering_parameter_value [where mu = 2 and X = ?X and dX = ?dX and Y = ?Y and dY = ?dY
      and parameters = ?P and feasible = False and params = ?Q and feasErr = 0]
    shape den num
  show ?thesis
    by (simp add: spec_centering_def power2_eq_square)
qed

section \<open>The dual residues\<close>

lemma computeDualResidues_tuple_eq:
  assumes "it_p t < length d"
  shows "computeDualResidues_tuple sdp Y T j d t
       = d[it_p t :=
           - ((\<Sum>b \<leftarrow> blocks sdp ! j.
               Matrix_get (blocks_BDM T ! b)
                 (nat (degrees sdp ! j + 1) * it_r t + it_k t) (nat (degrees sdp ! j + 1) * it_s t + it_k t)
             + Matrix_get (blocks_BDM T ! b)
                 (nat (degrees sdp ! j + 1) * it_s t + it_k t) (nat (degrees sdp ! j + 1) * it_r t + it_k t)) / 2)
           - (\<Sum>n<cols (polMatrixValues sdp).
                 diagonalPart Y ! n * Matrix_get (polMatrixValues sdp) (it_p t) n)
           + affineConstants sdp ! it_p t]"
proof -
  let ?p = "it_p t" and ?ej = "nat (degrees sdp ! j + 1)"
  let ?f = "\<lambda>b. Matrix_get (blocks_BDM T ! b) (?ej * it_r t + it_k t) (?ej * it_s t + it_k t)
             + Matrix_get (blocks_BDM T ! b) (?ej * it_s t + it_k t) (?ej * it_r t + it_k t)"
  have step: "(\<lambda>d b. let d' = d[?p := d ! ?p
                   - Matrix_get (blocks_BDM T ! b) (it_r t * ?ej + it_k t) (it_s t * ?ej + it_k t)]
                 in d'[?p := d' ! ?p
                   - Matrix_get (blocks_BDM T ! b) (it_s t * ?ej + it_k t) (it_r t * ?ej + it_k t)])
      = (\<lambda>d b. d[?p := d ! ?p - ?f b])"
  proof (intro ext)
    fix d :: "real list" and b
    show "(let d' = d[?p := d ! ?p
                   - Matrix_get (blocks_BDM T ! b) (it_r t * ?ej + it_k t) (it_s t * ?ej + it_k t)]
                 in d'[?p := d' ! ?p
                   - Matrix_get (blocks_BDM T ! b) (it_s t * ?ej + it_k t) (it_r t * ?ej + it_k t)])
      = d[?p := d ! ?p - ?f b]"
      by (cases "?p < length d")
        (simp_all add: Let_def mult.commute algebra_simps list_update_beyond not_less)
  qed
  show ?thesis
    unfolding computeDualResidues_tuple_def Let_def step [unfolded Let_def]
    using assms by (simp add: foldl_update_minus sum_list_upt)
qed

text \<open>
  C5. With the index tuples of the solver and a vector \<open>dualResidues\<close> that has an entry
  for each of them, \<open>computeDualResidues\<close> leaves, for every tuple \<open>(p, r, s, k)\<close> of every
  group \<open>j\<close>, \<open>dualResidues[p] = affineConstants[p] - (1/2) \<Sum>\<^sub>b (T_Y[b](e\<^sub>j r + k, e\<^sub>j s + k) +
  T_Y[b](e\<^sub>j s + k, e\<^sub>j r + k)) - \<Sum>\<^sub>n polMatrixValues[p, n] Y.diagonalPart[n]\<close>, the sums
  over the blocks \<open>b\<close> of group \<open>j\<close> and over the columns \<open>n\<close> of \<open>polMatrixValues\<close>.
\<close>

theorem computeDualResidues_entries:
  assumes "length (degrees sdp) = length (dimensions sdp)"
    and "length (concat (constraintIndexTuples (dimensions sdp) (degrees sdp))) \<le> length dualResidues"
    and j: "j < length (dimensions sdp)"
    and t: "t \<in> set (constraintIndexTuples (dimensions sdp) (degrees sdp) ! j)"
  shows "computeDualResidues sdp Y T_Y (constraintIndexTuples (dimensions sdp) (degrees sdp))
           dualResidues ! it_p t
         = dualResidue_spec sdp Y T_Y j t"
proof -
  let ?G = "constraintIndexTuples (dimensions sdp) (degrees sdp)"
  let ?J = "length (dimensions sdp)"
  let ?xs = "concat (map (\<lambda>j. map (Pair j) (?G ! j)) [0..<?J])"
  define val where "val = (\<lambda>jt :: nat \<times> IndexTuple.
      - ((\<Sum>b \<leftarrow> blocks sdp ! fst jt.
            Matrix_get (blocks_BDM T_Y ! b)
              (nat (degrees sdp ! fst jt + 1) * it_r (snd jt) + it_k (snd jt))
              (nat (degrees sdp ! fst jt + 1) * it_s (snd jt) + it_k (snd jt))
          + Matrix_get (blocks_BDM T_Y ! b)
              (nat (degrees sdp ! fst jt + 1) * it_s (snd jt) + it_k (snd jt))
              (nat (degrees sdp ! fst jt + 1) * it_r (snd jt) + it_k (snd jt))) / 2)
      - (\<Sum>n<cols (polMatrixValues sdp).
            diagonalPart Y ! n * Matrix_get (polMatrixValues sdp) (it_p (snd jt)) n)
      + affineConstants sdp ! it_p (snd jt))"
  have mem: "jt \<in> set ?xs \<longleftrightarrow> fst jt < ?J \<and> snd jt \<in> set (?G ! fst jt)" for jt
    by (cases jt) auto
  have "computeDualResidues sdp Y T_Y ?G dualResidues
      = foldl (\<lambda>d jt. d[it_p (snd jt) := val jt]) dualResidues ?xs"
    unfolding computeDualResidues_def foldl_nested
  proof (rule foldl_updates_cond [where L = "length dualResidues"])
    fix d :: "real list" and jt
    assume "jt \<in> set ?xs" and len: "length d = length dualResidues"
    then have "it_p (snd jt) < length (concat ?G)"
      unfolding mem by (intro it_p_less_total [of "fst jt"]) simp_all
    with assms(2) len have "it_p (snd jt) < length d" by simp
    then show "computeDualResidues_tuple sdp Y T_Y (fst jt) d (snd jt) = d[it_p (snd jt) := val jt]"
      by (simp add: computeDualResidues_tuple_eq val_def)
  qed simp
  moreover have "foldl (\<lambda>d jt. d[it_p (snd jt) := val jt]) dualResidues ?xs ! it_p t = val (j, t)"
  proof (rule nth_foldl_updates)
    show "it_p t < length dualResidues"
      using it_p_less_total [OF j t] assms(2) by simp
    show "(j, t) \<in> set ?xs" by (subst mem) (simp add: j t)
    show "it_p (snd (j, t)) = it_p t" by simp
    fix jt assume "jt \<in> set ?xs" "it_p (snd jt) = it_p t"
    then have "fst jt = j \<and> snd jt = t"
      unfolding mem by (intro it_p_inj [OF _ j _ t]) simp_all
    then show "val jt = val (j, t)" by (cases jt) simp
  qed
  moreover have "val (j, t) = dualResidue_spec sdp Y T_Y j t"
    by (simp add: val_def dualResidue_spec_def Let_def mult.commute)
  ultimately show ?thesis by simp
qed

theorem computeDualResidues_entries_witness:
  "computeDualResidues
     \<lparr>bilinearBases = [\<lparr>rows = 1, cols = 1, elements = [1]\<rparr>], numConstraints = 1,
      objDimension = 1, polMatrixValues = \<lparr>rows = 1, cols = 1, elements = [2]\<rparr>,
      affineConstants = [5], objective = [0], dimensions = [1], degrees = [0], blocks = [[0]]\<rparr>
     \<lparr>dim_BDM = 2, diagonalPart = [7], blocks_BDM = [\<lparr>rows = 1, cols = 1, elements = [1]\<rparr>]\<rparr>
     \<lparr>dim_BDM = 1, diagonalPart = [], blocks_BDM = [\<lparr>rows = 1, cols = 1, elements = [3]\<rparr>]\<rparr>
     (constraintIndexTuples [1] [0]) [0] ! 0 = - 12"
proof -
  let ?sdp = "\<lparr>bilinearBases = [\<lparr>rows = 1, cols = 1, elements = [1]\<rparr>], numConstraints = 1,
      objDimension = 1, polMatrixValues = \<lparr>rows = 1, cols = 1, elements = [2]\<rparr>,
      affineConstants = [5], objective = [0], dimensions = [1], degrees = [0], blocks = [[0]]\<rparr>"
  let ?Y = "\<lparr>dim_BDM = 2, diagonalPart = [7], blocks_BDM = [\<lparr>rows = 1, cols = 1, elements = [1]\<rparr>]\<rparr>"
  let ?T = "\<lparr>dim_BDM = 1, diagonalPart = [], blocks_BDM = [\<lparr>rows = 1, cols = 1, elements = [3]\<rparr>]\<rparr>"
  let ?t = "\<lparr>it_p = 0, it_r = 0, it_s = 0, it_k = 0\<rparr>"
  have G: "constraintIndexTuples [1] [0] = [[?t]]"
    by (simp add: constraintIndexTuples_def constraintIndexTuples_loop_def)
  have h: "length (degrees ?sdp) = length (dimensions ?sdp)"
    "length (concat (constraintIndexTuples (dimensions ?sdp) (degrees ?sdp))) \<le> length [0 :: real]"
    "0 < length (dimensions ?sdp)"
    "?t \<in> set (constraintIndexTuples (dimensions ?sdp) (degrees ?sdp) ! 0)"
    by (simp_all add: G)
  have "dualResidue_spec ?sdp ?Y ?T 0 ?t = - 12"
    by (simp add: dualResidue_spec_def Matrix_get_def)
  with computeDualResidues_entries [OF h, of ?Y ?T] show ?thesis
    by simp
qed

section \<open>Assembly of the Schur complement\<close>

lemma sum_list_divide: "sum_list (map (\<lambda>x. f x / c) xs) = sum_list (map f xs) / (c :: real)"
  by (induction xs) (simp_all add: add_divide_distrib)

lemma addSchurBlocks_pair_adds:
  "addSchurBlocks_pair sdp T_X T_Y j S t1 t2
     = Matrix_adds S (pairAdds (it_p t1) (it_p t2) (schurQuantity sdp T_X T_Y j t1 t2))"
  by (simp add: addSchurBlocks_pair_def schurQuantity_def pairAdds_def Let_def
      foldl_plus_sum_list sum_list_divide mult.commute)

lemma addSchurBlocks_adds:
  "addSchurBlocks sdp T_X T_Y G S
     = Matrix_adds S
         (concat (map (\<lambda>j.
            concat (map (\<lambda>t1.
              concat (map (\<lambda>t2. pairAdds (it_p t1) (it_p t2) (schurQuantity sdp T_X T_Y j t1 t2))
                (takeWhile (\<lambda>t2. it_p t2 \<le> it_p t1) (G ! j))))
              (G ! j)))
            [0..<length (dimensions sdp)]))"
proof -
  have l3: "foldl (\<lambda>S t2. addSchurBlocks_pair sdp T_X T_Y j S t1 t2) M ts
      = Matrix_adds M (concat (map (\<lambda>t2. pairAdds (it_p t1) (it_p t2)
            (schurQuantity sdp T_X T_Y j t1 t2)) ts))" for M j t1 ts
    by (rule foldl_adds [where m = "rows M" and n = "cols M"])
      (simp_all add: addSchurBlocks_pair_adds)
  have l2: "foldl (\<lambda>S t1. foldl (\<lambda>S t2. addSchurBlocks_pair sdp T_X T_Y j S t1 t2) S
          (takeWhile (\<lambda>t2. it_p t2 \<le> it_p t1) (G ! j))) M ts
      = Matrix_adds M (concat (map (\<lambda>t1.
              concat (map (\<lambda>t2. pairAdds (it_p t1) (it_p t2) (schurQuantity sdp T_X T_Y j t1 t2))
                (takeWhile (\<lambda>t2. it_p t2 \<le> it_p t1) (G ! j)))) ts))" for M j ts
    by (rule foldl_adds [where m = "rows M" and n = "cols M"]) (simp_all only: l3)
  show ?thesis
    unfolding addSchurBlocks_def
    by (rule foldl_adds [where m = "rows S" and n = "cols S"]) (simp_all only: l2)
qed

lemma addedAt_simps [simp]:
  "addedAt rc [] = 0"
  "addedAt rc (w # ws) = (if fst w = rc then snd w else 0) + addedAt rc ws"
  "addedAt rc (ws @ ws') = addedAt rc ws + addedAt rc ws'"
  by (simp_all add: addedAt_def)

lemma addedAt_concat: "addedAt rc (concat wss) = sum_list (map (addedAt rc) wss)"
  by (induction wss) simp_all

lemma addedAt_concat_map: "addedAt rc (concat (map f xs)) = (\<Sum>x \<leftarrow> xs. addedAt rc (f x))"
  by (simp add: addedAt_concat comp_def)

lemma addedAt_pairAdds:
  "addedAt (a, b) (pairAdds p1 p2 q)
     = (if (p1 = a \<and> p2 = b) \<or> (p1 = b \<and> p2 = a) then q else 0)"
  by (auto simp: pairAdds_def)

lemma sum_list_zero: "(\<And>x. x \<in> set xs \<Longrightarrow> f x = (0::real)) \<Longrightarrow> sum_list (map f xs) = 0"
  by (induction xs) simp_all

lemma sum_list_single:
  assumes "distinct xs" "x0 \<in> set xs" "\<And>x. x \<in> set xs \<Longrightarrow> x \<noteq> x0 \<Longrightarrow> f x = (0::real)"
  shows "sum_list (map f xs) = f x0"
  using assms
proof (induction xs)
  case Nil
  then show ?case by simp
next
  case (Cons x xs)
  show ?case
  proof (cases "x = x0")
    case True
    with Cons.prems have "sum_list (map f xs) = 0"
      by (intro sum_list_zero) auto
    with True show ?thesis by simp
  next
    case False
    with Cons.prems have "f x = 0" "sum_list (map f xs) = f x0"
      by (auto intro: Cons.IH)
    then show ?thesis by simp
  qed
qed

lemma takeWhile_sorted:
  assumes "sorted_wrt (\<lambda>t t'. it_p t < it_p t') ts"
  shows "takeWhile (\<lambda>t. it_p t \<le> c) ts = filter (\<lambda>t. it_p t \<le> c) ts"
  using assms
proof (induction ts)
  case Nil
  show ?case by simp
next
  case (Cons t ts)
  show ?case
  proof (cases "it_p t \<le> c")
    case True
    with Cons show ?thesis by simp
  next
    case False
    with Cons.prems have "\<forall>t' \<in> set ts. \<not> it_p t' \<le> c" by auto
    then have "filter (\<lambda>t. it_p t \<le> c) ts = []" by (simp add: filter_empty_conv)
    with False show ?thesis by simp
  qed
qed

lemma distinct_sorted_by_p:
  assumes "sorted_wrt (\<lambda>t t'. it_p t < it_p t') ts"
  shows "distinct ts"
  using assms by (induction ts) auto

lemma addedAt_symmetric:
  "addedAt (a, b)
     (concat (map (\<lambda>j. concat (map (\<lambda>t1. concat (map (\<lambda>t2. pairAdds (P t1) (P t2) (q j t1 t2))
        (h j t1))) (g j))) js))
   = addedAt (b, a)
     (concat (map (\<lambda>j. concat (map (\<lambda>t1. concat (map (\<lambda>t2. pairAdds (P t1) (P t2) (q j t1 t2))
        (h j t1))) (g j))) js))"
proof -
  have "addedAt (a, b) (pairAdds p1 p2 v) = addedAt (b, a) (pairAdds p1 p2 v)" for p1 p2 v
    by (auto simp: addedAt_pairAdds)
  then show ?thesis
    by (simp only: addedAt_concat_map)
qed

lemma addedAt_schur:
  fixes sdp :: SDP
  defines "G \<equiv> constraintIndexTuples (dimensions sdp) (degrees sdp)"
  assumes j: "j < length (dimensions sdp)"
    and t1: "t1 \<in> set (G ! j)" and t2: "t2 \<in> set (G ! j)" and le: "it_p t2 \<le> it_p t1"
  shows "addedAt (it_p t1, it_p t2)
     (concat (map (\<lambda>j.
        concat (map (\<lambda>t1.
          concat (map (\<lambda>t2. pairAdds (it_p t1) (it_p t2) (q j t1 t2))
            (takeWhile (\<lambda>t2. it_p t2 \<le> it_p t1) (G ! j))))
          (G ! j)))
        [0..<length (dimensions sdp)]))
   = q j t1 t2"
proof -
  let ?a = "it_p t1" and ?b = "it_p t2"
  let ?ind = "\<lambda>j' u1 u2. if (it_p u1 = ?a \<and> it_p u2 = ?b) \<or> (it_p u1 = ?b \<and> it_p u2 = ?a)
      then q j' u1 u2 else 0"
  let ?tw = "\<lambda>j' u1. takeWhile (\<lambda>u2. it_p u2 \<le> it_p u1) (G ! j')"
  have inj: "j' = j'' \<and> u = u'"
    if "j' < length (dimensions sdp)" "j'' < length (dimensions sdp)"
      "u \<in> set (G ! j')" "u' \<in> set (G ! j'')" "it_p u = it_p u'" for j' j'' u u'
    using that unfolding G_def by (rule it_p_inj)
  have sorted: "sorted_wrt (\<lambda>t t'. it_p t < it_p t') (G ! j')" if "j' < length (dimensions sdp)" for j'
    using that unfolding G_def by (rule group_sorted_by_p)
  have tw: "?tw j' u1 = filter (\<lambda>u2. it_p u2 \<le> it_p u1) (G ! j')"
    if "j' < length (dimensions sdp)" for j' u1
    by (rule takeWhile_sorted [OF sorted [OF that]])
  have level3: "(\<Sum>u2 \<leftarrow> ?tw j t1. ?ind j t1 u2) = q j t1 t2"
  proof -
    have "(\<Sum>u2 \<leftarrow> ?tw j t1. ?ind j t1 u2) = ?ind j t1 t2"
    proof (rule sum_list_single)
      show "distinct (?tw j t1)"
        unfolding tw [OF j] using distinct_sorted_by_p [OF sorted [OF j]] by simp
      show "t2 \<in> set (?tw j t1)"
        unfolding tw [OF j] using t2 le by simp
      fix u2 assume "u2 \<in> set (?tw j t1)" and ne: "u2 \<noteq> t2"
      then have u2: "u2 \<in> set (G ! j)" unfolding tw [OF j] by simp
      have "it_p u2 \<noteq> ?b"
        using inj [OF j j u2 t2] ne by blast
      moreover have "\<not> (?a = ?b \<and> it_p u2 = ?a)"
        using inj [OF j j u2 t2] ne by auto
      ultimately show "?ind j t1 u2 = 0" by auto
    qed
    then show ?thesis by simp
  qed
  have level2: "(\<Sum>u1 \<leftarrow> G ! j. \<Sum>u2 \<leftarrow> ?tw j u1. ?ind j u1 u2) = q j t1 t2"
  proof -
    have "(\<Sum>u1 \<leftarrow> G ! j. \<Sum>u2 \<leftarrow> ?tw j u1. ?ind j u1 u2) = (\<Sum>u2 \<leftarrow> ?tw j t1. ?ind j t1 u2)"
    proof (rule sum_list_single)
      show "distinct (G ! j)" by (rule distinct_sorted_by_p [OF sorted [OF j]])
      show "t1 \<in> set (G ! j)" by (fact t1)
      fix u1 assume u1: "u1 \<in> set (G ! j)" and ne: "u1 \<noteq> t1"
      show "(\<Sum>u2 \<leftarrow> ?tw j u1. ?ind j u1 u2) = 0"
      proof (rule sum_list_zero)
        fix u2 assume "u2 \<in> set (?tw j u1)"
        then have u2: "u2 \<in> set (G ! j)" "it_p u2 \<le> it_p u1" unfolding tw [OF j] by simp_all
        have "it_p u1 \<noteq> ?a"
          using inj [OF j j u1 t1] ne by blast
        moreover have "\<not> (it_p u1 = ?b \<and> it_p u2 = ?a)"
        proof
          assume "it_p u1 = ?b \<and> it_p u2 = ?a"
          with u2 le have "it_p u1 = ?a" by simp
          with \<open>it_p u1 \<noteq> ?a\<close> show False by simp
        qed
        ultimately show "?ind j u1 u2 = 0" by auto
      qed
    qed
    with level3 show ?thesis by simp
  qed
  have level1: "(\<Sum>j' \<leftarrow> [0..<length (dimensions sdp)].
      \<Sum>u1 \<leftarrow> G ! j'. \<Sum>u2 \<leftarrow> ?tw j' u1. ?ind j' u1 u2) = q j t1 t2"
  proof -
    have "(\<Sum>j' \<leftarrow> [0..<length (dimensions sdp)].
        \<Sum>u1 \<leftarrow> G ! j'. \<Sum>u2 \<leftarrow> ?tw j' u1. ?ind j' u1 u2)
      = (\<Sum>u1 \<leftarrow> G ! j. \<Sum>u2 \<leftarrow> ?tw j u1. ?ind j u1 u2)"
    proof (rule sum_list_single)
      show "distinct [0..<length (dimensions sdp)]" by simp
      show "j \<in> set [0..<length (dimensions sdp)]" using j by simp
      fix j' assume "j' \<in> set [0..<length (dimensions sdp)]" and ne: "j' \<noteq> j"
      then have j': "j' < length (dimensions sdp)" by simp
      show "(\<Sum>u1 \<leftarrow> G ! j'. \<Sum>u2 \<leftarrow> ?tw j' u1. ?ind j' u1 u2) = 0"
      proof (intro sum_list_zero)
        fix u1 u2 assume u1: "u1 \<in> set (G ! j')"
        have "it_p u1 \<noteq> ?a" "it_p u1 \<noteq> ?b"
          using inj [OF j' j u1 t1] inj [OF j' j u1 t2] ne by blast+
        then show "?ind j' u1 u2 = 0" by auto
      qed
    qed
    with level2 show ?thesis by simp
  qed
  show ?thesis
    unfolding addedAt_concat_map addedAt_pairAdds by (rule level1)
qed

lemma mem_mirror:
  "w \<in> set (concat (map (\<lambda>p. concat (map (\<lambda>q. f p q # (if p \<noteq> q then [g p q] else []))
        [0..<p + 1])) [0..<N]))
   \<longleftrightarrow> (\<exists>p q. p < N \<and> q \<le> p \<and> (w = f p q \<or> (p \<noteq> q \<and> w = g p q)))"
proof
  assume "w \<in> set (concat (map (\<lambda>p. concat (map (\<lambda>q. f p q # (if p \<noteq> q then [g p q] else []))
        [0..<p + 1])) [0..<N]))"
  then obtain p q where "p < N" "q \<le> p" "w \<in> set (f p q # (if p \<noteq> q then [g p q] else []))"
    by (auto simp del: upt_Suc simp: less_Suc_eq_le)
  then show "\<exists>p q. p < N \<and> q \<le> p \<and> (w = f p q \<or> (p \<noteq> q \<and> w = g p q))"
    by (intro exI [of _ p] exI [of _ q]) (auto split: if_splits)
next
  assume "\<exists>p q. p < N \<and> q \<le> p \<and> (w = f p q \<or> (p \<noteq> q \<and> w = g p q))"
  then obtain p q where pq: "p < N" "q \<le> p" and w: "w = f p q \<or> (p \<noteq> q \<and> w = g p q)"
    by blast
  from w have "w \<in> set (f p q # (if p \<noteq> q then [g p q] else []))"
    by auto
  moreover have "p \<in> set [0..<N]" "q \<in> set [0..<p + 1]"
    using pq by (simp_all del: upt_Suc)
  ultimately show "w \<in> set (concat (map (\<lambda>p. concat (map (\<lambda>q. f p q #
        (if p \<noteq> q then [g p q] else [])) [0..<p + 1])) [0..<N]))"
    by (intro in_concat_mapI [of p] in_concat_mapI [of q])
qed

lemma diagonalCongruenceTranspose_writes:
  "diagonalCongruenceTranspose x d V blockRow blockCol M
     = Matrix_writes M
         (concat (map (\<lambda>p. concat (map (\<lambda>q.
             ((blockRow * rows V + p, blockCol * rows V + q),
               \<Sum>n<cols V. x ! (d + n) * Matrix_get V p n * Matrix_get V q n)
             # (if p \<noteq> q
                then [((blockRow * rows V + q, blockCol * rows V + p),
                        \<Sum>n<cols V. x ! (d + n) * Matrix_get V p n * Matrix_get V q n)]
                else []))
           [0..<p + 1])) [0..<rows V]))"
proof -
  have inner: "foldl (\<lambda>result q.
          if p \<noteq> q
          then Matrix_set
                 (Matrix_set result (blockRow * rows V + p) (blockCol * rows V + q)
                    (foldl (\<lambda>tmp n. tmp + x ! (d + n) * Matrix_get V p n * Matrix_get V q n)
                       0 [0..<cols V]))
                 (blockRow * rows V + q) (blockCol * rows V + p)
                 (foldl (\<lambda>tmp n. tmp + x ! (d + n) * Matrix_get V p n * Matrix_get V q n)
                    0 [0..<cols V])
          else Matrix_set result (blockRow * rows V + p) (blockCol * rows V + q)
                 (foldl (\<lambda>tmp n. tmp + x ! (d + n) * Matrix_get V p n * Matrix_get V q n)
                    0 [0..<cols V])) N qs
      = Matrix_writes N (concat (map (\<lambda>q.
             ((blockRow * rows V + p, blockCol * rows V + q),
               \<Sum>n<cols V. x ! (d + n) * Matrix_get V p n * Matrix_get V q n)
             # (if p \<noteq> q
                then [((blockRow * rows V + q, blockCol * rows V + p),
                        \<Sum>n<cols V. x ! (d + n) * Matrix_get V p n * Matrix_get V q n)]
                else [])) qs))" for N p qs
    by (rule foldl_writes [where m = "rows N" and n = "cols N"])
      (simp_all add: foldl_plus_sum)
  show ?thesis
    unfolding diagonalCongruenceTranspose_def Let_def
    by (rule foldl_writes [where m = "rows M" and n = "cols M"]) (simp_all only: inner)
qed

lemma diagonalCongruenceTranspose_shape [simp]:
  "rows (diagonalCongruenceTranspose x d V blockRow blockCol M) = rows M"
  "cols (diagonalCongruenceTranspose x d V blockRow blockCol M) = cols M"
  "Matrix_wf (diagonalCongruenceTranspose x d V blockRow blockCol M) = Matrix_wf M"
  by (simp_all add: diagonalCongruenceTranspose_writes)

lemma diagonalCongruenceTranspose_symmetric:
  assumes "Matrix_wf M" "rows M = rows V" "cols M = rows V"
  shows "Matrix_symmetric (diagonalCongruenceTranspose x d V 0 0 M)"
proof (rule Matrix_symmetricI)
  let ?v = "\<lambda>p q. \<Sum>n<cols V. x ! (d + n) * Matrix_get V p n * Matrix_get V q n"
  let ?ws = "concat (map (\<lambda>p. concat (map (\<lambda>q. ((0 * rows V + p, 0 * rows V + q), ?v p q)
      # (if p \<noteq> q then [((0 * rows V + q, 0 * rows V + p), ?v p q)] else []))
        [0..<p + 1])) [0..<rows V])"
  let ?M = "diagonalCongruenceTranspose x d V 0 0 M"
  show "rows ?M = cols ?M" using assms by simp
  have inside: "\<forall>w \<in> set ?ws. inside M (fst w)"
    unfolding mem_mirror using assms by (auto simp: inside_def)
  have entry: "Matrix_get ?M p q = ?v p q \<and> Matrix_get ?M q p = ?v p q"
    if "q \<le> p" "p < rows V" for p q
  proof
    show "Matrix_get ?M p q = ?v p q"
      unfolding diagonalCongruenceTranspose_writes
    proof (rule Matrix_get_writes [OF assms(1) inside])
      show "p < rows M" using that assms by simp
      show "\<forall>w \<in> set ?ws. fst w = (p, q) \<longrightarrow> snd w = ?v p q"
        unfolding mem_mirror using that by auto
      have "((0 * rows V + p, 0 * rows V + q), ?v p q) \<in> set ?ws"
        unfolding mem_mirror using that by blast
      then show "\<exists>w \<in> set ?ws. fst w = (p, q)" by (rule rev_bexI) simp
    qed
    show "Matrix_get ?M q p = ?v p q"
      unfolding diagonalCongruenceTranspose_writes
    proof (rule Matrix_get_writes [OF assms(1) inside])
      show "q < rows M" using that assms by simp
      show "\<forall>w \<in> set ?ws. fst w = (q, p) \<longrightarrow> snd w = ?v p q"
        unfolding mem_mirror using that by auto
      have "((0 * rows V + q, 0 * rows V + p), ?v p q) \<in> set ?ws"
      proof (cases "p = q")
        case True
        then show ?thesis unfolding mem_mirror using that by blast
      next
        case False
        then show ?thesis unfolding mem_mirror using that
          by (intro exI [of _ p] exI [of _ q]) simp
      qed
      then show "\<exists>w \<in> set ?ws. fst w = (q, p)" by (rule rev_bexI) simp
    qed
  qed
  fix r c assume "r < rows ?M" "c < rows ?M"
  then have "r < rows V" "c < rows V" using assms by simp_all
  then show "Matrix_get ?M r c = Matrix_get ?M c r"
    using entry [of r c] entry [of c r] by (cases "r \<le> c") simp_all
qed

lemma addSchurBlocks_get:
  fixes sdp :: SDP
  defines "G \<equiv> constraintIndexTuples (dimensions sdp) (degrees sdp)"
  assumes S: "Matrix_wf S" "rows S = cols S" and n: "length (concat G) \<le> rows S"
    and a: "a < rows S"
  shows "Matrix_get (addSchurBlocks sdp T_X T_Y G S) a b
     = Matrix_get S a b
       + addedAt (a, b)
           (concat (map (\<lambda>j.
              concat (map (\<lambda>t1.
                concat (map (\<lambda>t2. pairAdds (it_p t1) (it_p t2) (schurQuantity sdp T_X T_Y j t1 t2))
                  (takeWhile (\<lambda>t2. it_p t2 \<le> it_p t1) (G ! j))))
                (G ! j)))
              [0..<length (dimensions sdp)]))"
  unfolding addSchurBlocks_adds addedAt_def
proof (rule Matrix_get_adds [OF S(1) _ a], intro ballI)
  fix w
  assume "w \<in> set (concat (map (\<lambda>j.
              concat (map (\<lambda>t1.
                concat (map (\<lambda>t2. pairAdds (it_p t1) (it_p t2) (schurQuantity sdp T_X T_Y j t1 t2))
                  (takeWhile (\<lambda>t2. it_p t2 \<le> it_p t1) (G ! j))))
                (G ! j)))
              [0..<length (dimensions sdp)]))"
  then obtain j t1 t2 where j: "j < length (dimensions sdp)" and t1: "t1 \<in> set (G ! j)"
    and t2: "t2 \<in> set (takeWhile (\<lambda>t2. it_p t2 \<le> it_p t1) (G ! j))"
    and w: "w \<in> set (pairAdds (it_p t1) (it_p t2) (schurQuantity sdp T_X T_Y j t1 t2))"
    by auto
  from t2 have "t2 \<in> set (G ! j)" by (rule set_takeWhileD [THEN conjunct1])
  with j t1 have "it_p t1 < length (concat G)" "it_p t2 < length (concat G)"
    unfolding G_def by (auto intro: it_p_less_total)
  with n S(2) have "it_p t1 < rows S" "it_p t2 < rows S" "it_p t1 < cols S" "it_p t2 < cols S"
    by simp_all
  with w show "inside S (fst w)"
    by (auto simp: pairAdds_def inside_def split: if_splits)
qed

lemma addSchurBlocks_shape [simp]:
  "rows (addSchurBlocks sdp T_X T_Y G S) = rows S"
  "cols (addSchurBlocks sdp T_X T_Y G S) = cols S"
  "Matrix_wf (addSchurBlocks sdp T_X T_Y G S) = Matrix_wf S"
  by (simp_all add: addSchurBlocks_adds)

lemma addSchurBlocks_symmetric:
  fixes sdp :: SDP
  defines "G \<equiv> constraintIndexTuples (dimensions sdp) (degrees sdp)"
  assumes S: "Matrix_wf S" "Matrix_symmetric S" and n: "length (concat G) \<le> rows S"
  shows "Matrix_symmetric (addSchurBlocks sdp T_X T_Y G S)"
proof (rule Matrix_symmetricI)
  have sq: "rows S = cols S" using S(2) by (simp add: Matrix_symmetric_def)
  then show "rows (addSchurBlocks sdp T_X T_Y G S) = cols (addSchurBlocks sdp T_X T_Y G S)"
    by simp
  fix r c assume "r < rows (addSchurBlocks sdp T_X T_Y G S)" "c < rows (addSchurBlocks sdp T_X T_Y G S)"
  then have rc: "r < rows S" "c < rows S" by simp_all
  have "Matrix_get S r c = Matrix_get S c r"
    using S(2) rc by (rule Matrix_symmetricD)
  then show "Matrix_get (addSchurBlocks sdp T_X T_Y G S) r c
      = Matrix_get (addSchurBlocks sdp T_X T_Y G S) c r"
    unfolding G_def addSchurBlocks_get [OF S(1) sq n [unfolded G_def] rc(1)]
      addSchurBlocks_get [OF S(1) sq n [unfolded G_def] rc(2)]
    using addedAt_symmetric [of r c it_p] by simp
qed

text \<open>
  C1. With the index tuples of the solver and a square Schur matrix \<open>S\<close> that has a row
  for each of them: for every group \<open>j\<close> and tuples \<open>t\<^sub>1, t\<^sub>2\<close> of it with \<open>p\<^sub>2 \<le> p\<^sub>1\<close>,
  \<open>addSchurBlocks\<close> adds to \<open>S[p\<^sub>1, p\<^sub>2]\<close> the quantity of the spec, one quarter of the sum
  over the blocks of the four products, and it adds the same quantity to the mirror
  entry \<open>S[p\<^sub>2, p\<^sub>1]\<close> when \<open>p\<^sub>1 \<noteq> p\<^sub>2\<close> (for \<open>p\<^sub>1 = p\<^sub>2\<close> the entry receives it once). Hence
  \<open>addSchurBlocks\<close> keeps a symmetric \<open>S\<close> symmetric, and the matrix assembled in
  \<open>computeSchurComplementCholesky\<close> is symmetric.
\<close>

theorem addSchurBlocks_entries:
  assumes "length (degrees sdp) = length (dimensions sdp)"
    and S: "Matrix_wf S" "rows S = cols S"
    and n: "length (concat (constraintIndexTuples (dimensions sdp) (degrees sdp))) \<le> rows S"
    and V: "rows (polMatrixValues sdp) = rows S"
  shows "(\<forall>j t1 t2.
       j < length (dimensions sdp) \<and>
       t1 \<in> set (constraintIndexTuples (dimensions sdp) (degrees sdp) ! j) \<and>
       t2 \<in> set (constraintIndexTuples (dimensions sdp) (degrees sdp) ! j) \<and>
       it_p t2 \<le> it_p t1 \<longrightarrow>
         Matrix_get (addSchurBlocks sdp T_X T_Y
             (constraintIndexTuples (dimensions sdp) (degrees sdp)) S) (it_p t1) (it_p t2)
           = Matrix_get S (it_p t1) (it_p t2) + schurQuantity sdp T_X T_Y j t1 t2 \<and>
         (it_p t1 \<noteq> it_p t2 \<longrightarrow>
            Matrix_get (addSchurBlocks sdp T_X T_Y
                (constraintIndexTuples (dimensions sdp) (degrees sdp)) S) (it_p t2) (it_p t1)
              = Matrix_get S (it_p t2) (it_p t1) + schurQuantity sdp T_X T_Y j t1 t2)) \<and>
     (Matrix_symmetric S \<longrightarrow>
        Matrix_symmetric (addSchurBlocks sdp T_X T_Y
          (constraintIndexTuples (dimensions sdp) (degrees sdp)) S)) \<and>
     Matrix_symmetric (assembleSchurComplement sdp XInvYDiag T_X T_Y
        (constraintIndexTuples (dimensions sdp) (degrees sdp)) S)"
proof -
  let ?G = "constraintIndexTuples (dimensions sdp) (degrees sdp)"
  have entries: "Matrix_get (addSchurBlocks sdp T_X T_Y ?G S) (it_p t1) (it_p t2)
           = Matrix_get S (it_p t1) (it_p t2) + schurQuantity sdp T_X T_Y j t1 t2 \<and>
         (it_p t1 \<noteq> it_p t2 \<longrightarrow>
            Matrix_get (addSchurBlocks sdp T_X T_Y ?G S) (it_p t2) (it_p t1)
              = Matrix_get S (it_p t2) (it_p t1) + schurQuantity sdp T_X T_Y j t1 t2)"
    if j: "j < length (dimensions sdp)" and t1: "t1 \<in> set (?G ! j)" and t2: "t2 \<in> set (?G ! j)"
      and le: "it_p t2 \<le> it_p t1" for j t1 t2
  proof -
    have p: "it_p t1 < rows S" "it_p t2 < rows S"
      using it_p_less_total [OF j t1] it_p_less_total [OF j t2] n by simp_all
    show ?thesis
      unfolding addSchurBlocks_get [OF S n p(1)] addSchurBlocks_get [OF S n p(2)]
        addedAt_symmetric [of "it_p t2" "it_p t1" it_p]
        addedAt_schur [OF j t1 t2 le]
      by simp
  qed
  have sym: "Matrix_symmetric (addSchurBlocks sdp T_X T_Y ?G S)" if "Matrix_symmetric S"
    using S(1) that n by (rule addSchurBlocks_symmetric)
  have "Matrix_symmetric (assembleSchurComplement sdp XInvYDiag T_X T_Y ?G S)"
    unfolding assembleSchurComplement_def
  proof (rule addSchurBlocks_symmetric)
    show "Matrix_wf (diagonalCongruenceTranspose XInvYDiag 0 (polMatrixValues sdp) 0 0 S)"
      using S by simp
    show "Matrix_symmetric (diagonalCongruenceTranspose XInvYDiag 0 (polMatrixValues sdp) 0 0 S)"
      using S V by (intro diagonalCongruenceTranspose_symmetric) simp_all
    show "length (concat ?G) \<le> rows (diagonalCongruenceTranspose XInvYDiag 0 (polMatrixValues sdp) 0 0 S)"
      using n by simp
  qed
  with entries sym show ?thesis by blast
qed

theorem addSchurBlocks_entries_witness:
  "Matrix_get (addSchurBlocks
       \<lparr>bilinearBases = [\<lparr>rows = 1, cols = 2, elements = [1, 1]\<rparr>], numConstraints = 2,
        objDimension = 1, polMatrixValues = \<lparr>rows = 2, cols = 1, elements = [1, 3]\<rparr>,
        affineConstants = [0, 0], objective = [0], dimensions = [1], degrees = [1], blocks = [[0]]\<rparr>
       \<lparr>dim_BDM = 2, diagonalPart = [], blocks_BDM = [\<lparr>rows = 2, cols = 2, elements = [1, 2, 3, 4]\<rparr>]\<rparr>
       \<lparr>dim_BDM = 2, diagonalPart = [], blocks_BDM = [\<lparr>rows = 2, cols = 2, elements = [5, 6, 7, 8]\<rparr>]\<rparr>
       (constraintIndexTuples [1] [1]) (Matrix_new 2 2)) 1 0 = 14 \<and>
   Matrix_get (addSchurBlocks
       \<lparr>bilinearBases = [\<lparr>rows = 1, cols = 2, elements = [1, 1]\<rparr>], numConstraints = 2,
        objDimension = 1, polMatrixValues = \<lparr>rows = 2, cols = 1, elements = [1, 3]\<rparr>,
        affineConstants = [0, 0], objective = [0], dimensions = [1], degrees = [1], blocks = [[0]]\<rparr>
       \<lparr>dim_BDM = 2, diagonalPart = [], blocks_BDM = [\<lparr>rows = 2, cols = 2, elements = [1, 2, 3, 4]\<rparr>]\<rparr>
       \<lparr>dim_BDM = 2, diagonalPart = [], blocks_BDM = [\<lparr>rows = 2, cols = 2, elements = [5, 6, 7, 8]\<rparr>]\<rparr>
       (constraintIndexTuples [1] [1]) (Matrix_new 2 2)) 0 1 = 14 \<and>
   Matrix_symmetric (assembleSchurComplement
       \<lparr>bilinearBases = [\<lparr>rows = 1, cols = 2, elements = [1, 1]\<rparr>], numConstraints = 2,
        objDimension = 1, polMatrixValues = \<lparr>rows = 2, cols = 1, elements = [1, 3]\<rparr>,
        affineConstants = [0, 0], objective = [0], dimensions = [1], degrees = [1], blocks = [[0]]\<rparr>
       [2]
       \<lparr>dim_BDM = 2, diagonalPart = [], blocks_BDM = [\<lparr>rows = 2, cols = 2, elements = [1, 2, 3, 4]\<rparr>]\<rparr>
       \<lparr>dim_BDM = 2, diagonalPart = [], blocks_BDM = [\<lparr>rows = 2, cols = 2, elements = [5, 6, 7, 8]\<rparr>]\<rparr>
       (constraintIndexTuples [1] [1]) (Matrix_new 2 2))"
proof -
  let ?sdp = "\<lparr>bilinearBases = [\<lparr>rows = 1, cols = 2, elements = [1, 1]\<rparr>], numConstraints = 2,
        objDimension = 1, polMatrixValues = \<lparr>rows = 2, cols = 1, elements = [1, 3]\<rparr>,
        affineConstants = [0, 0], objective = [0], dimensions = [1], degrees = [1], blocks = [[0]]\<rparr>"
  let ?X = "\<lparr>dim_BDM = 2, diagonalPart = [], blocks_BDM = [\<lparr>rows = 2, cols = 2, elements = [1, 2, 3, 4]\<rparr>]\<rparr>"
  let ?Y = "\<lparr>dim_BDM = 2, diagonalPart = [], blocks_BDM = [\<lparr>rows = 2, cols = 2, elements = [5, 6, 7, 8]\<rparr>]\<rparr>"
  let ?t0 = "\<lparr>it_p = 0, it_r = 0, it_s = 0, it_k = 0\<rparr>"
  let ?t1 = "\<lparr>it_p = 1, it_r = 0, it_s = 0, it_k = 1\<rparr>"
  have G: "constraintIndexTuples [1] [1] = [[?t0, ?t1]]"
    by (simp add: constraintIndexTuples_def constraintIndexTuples_loop_def upt_rec)
  have h: "length (degrees ?sdp) = length (dimensions ?sdp)"
    "Matrix_wf (Matrix_new 2 2)" "rows (Matrix_new 2 2) = cols (Matrix_new 2 2)"
    "length (concat (constraintIndexTuples (dimensions ?sdp) (degrees ?sdp))) \<le> rows (Matrix_new 2 2)"
    "rows (polMatrixValues ?sdp) = rows (Matrix_new 2 2)"
    by (simp_all add: G Matrix_new_def Matrix_wf_def)
  have q: "schurQuantity ?sdp ?X ?Y 0 ?t1 ?t0 = 14"
    by (simp add: schurQuantity_def Matrix_get_def)
  have z: "Matrix_get (Matrix_new 2 2) 1 0 = 0" "Matrix_get (Matrix_new 2 2) 0 1 = 0"
    by (simp_all add: Matrix_get_def Matrix_new_def)
  from addSchurBlocks_entries [OF h, of ?X ?Y "[2]"]
  have "(0 < length (dimensions ?sdp) \<and>
       ?t1 \<in> set (constraintIndexTuples (dimensions ?sdp) (degrees ?sdp) ! 0) \<and>
       ?t0 \<in> set (constraintIndexTuples (dimensions ?sdp) (degrees ?sdp) ! 0) \<and>
       it_p ?t0 \<le> it_p ?t1 \<longrightarrow>
         Matrix_get (addSchurBlocks ?sdp ?X ?Y
             (constraintIndexTuples (dimensions ?sdp) (degrees ?sdp)) (Matrix_new 2 2)) (it_p ?t1) (it_p ?t0)
           = Matrix_get (Matrix_new 2 2) (it_p ?t1) (it_p ?t0) + schurQuantity ?sdp ?X ?Y 0 ?t1 ?t0 \<and>
         (it_p ?t1 \<noteq> it_p ?t0 \<longrightarrow>
            Matrix_get (addSchurBlocks ?sdp ?X ?Y
                (constraintIndexTuples (dimensions ?sdp) (degrees ?sdp)) (Matrix_new 2 2)) (it_p ?t0) (it_p ?t1)
              = Matrix_get (Matrix_new 2 2) (it_p ?t0) (it_p ?t1) + schurQuantity ?sdp ?X ?Y 0 ?t1 ?t0))"
    and "Matrix_symmetric (assembleSchurComplement ?sdp [2] ?X ?Y
        (constraintIndexTuples (dimensions ?sdp) (degrees ?sdp)) (Matrix_new 2 2))"
    by blast+
  with q z show ?thesis
    by (simp add: G)
qed

section \<open>The weighted sum on a reused buffer\<close>

lemmas constraintMatrix_eval =
  constraintMatrixWeightedSum_def constraintMatrixWeightedSum_blocks_def
  constraintMatrixWeightedSum_diagonal_def BlockDiagonalMatrix_symmetrize_def
  Matrix_symmetrize_def Matrix_symmetrize_loop_def diagonalCongruenceTranspose_def
  BlockDiagonalMatrix_new_def psdMatrixBlockDims_def Matrix_new_def Matrix_set_def
  Matrix_get_def constraintMatrix_def BlockDiagonalMatrix_scale_def Matrix_scale_def Let_def

text \<open>
  C4. \<open>constraintMatrixWeightedSum\<close> resets the diagonal part of \<open>result\<close> but not its
  blocks, and \<open>diagonalCongruenceTranspose\<close> writes the block positions \<open>r \<le> s\<close> only: what
  \<open>result\<close> holds below them is averaged into the output by \<open>symmetrize\<close>. For one group of
  dimension 2 and degree 0 with the basis \<open>(1)\<close>, the call with \<open>x = e_0\<close> on a cleared
  buffer gives \<open>F_0\<close>, with blocks \<open>(1 0; 0 0)\<close>; on the buffer left by the call with
  \<open>x = e_1\<close>, as the solver reuses \<open>primalResidues\<close> and \<open>dX\<close>, it gives \<open>(1 1/4; 1/4 0)\<close>.
\<close>

theorem constraintMatrixWeightedSum_stale_blocks:
  "constraintMatrix
     \<lparr>bilinearBases = [\<lparr>rows = 1, cols = 1, elements = [1]\<rparr>], numConstraints = 3,
      objDimension = 1, polMatrixValues = \<lparr>rows = 3, cols = 1, elements = [1, 2, 3]\<rparr>,
      affineConstants = [0, 0, 0], objective = [1], dimensions = [2], degrees = [0], blocks = [[0]]\<rparr>
     0 \<lparr>it_p = 0, it_r = 0, it_s = 0, it_k = 0\<rparr>
     = Inr \<lparr>dim_BDM = 3, diagonalPart = [1],
            blocks_BDM = [\<lparr>rows = 2, cols = 2, elements = [1, 0, 0, 0]\<rparr>]\<rparr> \<and>
   constraintMatrixWeightedSum
     \<lparr>bilinearBases = [\<lparr>rows = 1, cols = 1, elements = [1]\<rparr>], numConstraints = 3,
      objDimension = 1, polMatrixValues = \<lparr>rows = 3, cols = 1, elements = [1, 2, 3]\<rparr>,
      affineConstants = [0, 0, 0], objective = [1], dimensions = [2], degrees = [0], blocks = [[0]]\<rparr>
     [1, 0, 0] (BlockDiagonalMatrix_new 1 [2])
     = Inr \<lparr>dim_BDM = 3, diagonalPart = [1],
            blocks_BDM = [\<lparr>rows = 2, cols = 2, elements = [1, 0, 0, 0]\<rparr>]\<rparr> \<and>
   constraintMatrixWeightedSum
     \<lparr>bilinearBases = [\<lparr>rows = 1, cols = 1, elements = [1]\<rparr>], numConstraints = 3,
      objDimension = 1, polMatrixValues = \<lparr>rows = 3, cols = 1, elements = [1, 2, 3]\<rparr>,
      affineConstants = [0, 0, 0], objective = [1], dimensions = [2], degrees = [0], blocks = [[0]]\<rparr>
     [0, 1, 0] (BlockDiagonalMatrix_new 1 [2])
     = Inr \<lparr>dim_BDM = 3, diagonalPart = [2],
            blocks_BDM = [\<lparr>rows = 2, cols = 2, elements = [0, 1 / 2, 1 / 2, 0]\<rparr>]\<rparr> \<and>
   constraintMatrixWeightedSum
     \<lparr>bilinearBases = [\<lparr>rows = 1, cols = 1, elements = [1]\<rparr>], numConstraints = 3,
      objDimension = 1, polMatrixValues = \<lparr>rows = 3, cols = 1, elements = [1, 2, 3]\<rparr>,
      affineConstants = [0, 0, 0], objective = [1], dimensions = [2], degrees = [0], blocks = [[0]]\<rparr>
     [1, 0, 0]
     \<lparr>dim_BDM = 3, diagonalPart = [2],
      blocks_BDM = [\<lparr>rows = 2, cols = 2, elements = [0, 1 / 2, 1 / 2, 0]\<rparr>]\<rparr>
     = Inr \<lparr>dim_BDM = 3, diagonalPart = [1],
            blocks_BDM = [\<lparr>rows = 2, cols = 2, elements = [1, 1 / 4, 1 / 4, 0]\<rparr>]\<rparr>"
  by (simp add: constraintMatrix_eval upt_rec) (simp add: eval_nat_numeral)

end
